theory Spec2Isabelle
  imports Main "HOL-Library.Word"
begin

unbundle bit_operations_syntax

section \<open>Data model of the display driver (src/lib/display.cpp)\<close>

text \<open>
  The driver's header is not part of the sources at hand, so the types and constants
  it declares are fixed here once and for all.

  Modelled from the spec: region coordinates are unsigned machine integers (the bounds
  test of \<^verbatim>\<open>push_update\<close> compares \<^verbatim>\<open>region.left >= epd_width\<close> after a subtraction,
  which only makes sense for unsigned wrap-around); they are taken as 32-bit words.
  Intensities are bytes of which five bits are used (\<^verbatim>\<open>intensity_values = 32\<close>), the
  packing quantum is \<^verbatim>\<open>buf_actual_depth = 8\<close> pixels and a packed group occupies
  \<^verbatim>\<open>buf_depth = 4\<close> bytes.
\<close>

type_synonym coord = "32 word"
type_synonym Intensity = "8 word"
type_synonym ModeID = "8 word"
type_synonym UpdateID = "32 word"

definition buf_actual_depth :: coord where
  "buf_actual_depth = 8"

definition buf_depth :: nat where
  "buf_depth = 4"

definition intensity_values :: Intensity where
  "intensity_values = 32"

text \<open>
  The panel geometry constants whose values the source file does not give are the
  fields of a record that every operation takes as its first argument.
\<close>

record panel =
  epd_width :: coord
  epd_height :: coord
  buf_stride :: nat
  buf_height :: nat
  margin_top :: nat
  margin_left :: nat

text \<open>The field \<^verbatim>\<open>top\<close> of the source is \<open>top_y\<close> here.\<close>

record UpdateRegion =
  top_y :: coord
  left :: coord
  width :: coord
  height :: coord

text \<open>
  Modelled from the spec: \<^verbatim>\<open>UpdateRegion::contains\<close> is a point-in-rectangle test,
  half-open on the right and at the bottom; the sums are 32-bit sums.
\<close>

definition contains :: "UpdateRegion \<Rightarrow> coord \<Rightarrow> coord \<Rightarrow> bool" where
  "contains r x y \<longleftrightarrow>
     left r \<le> x \<and> x < left r + width r \<and> top_y r \<le> y \<and> y < top_y r + height r"

text \<open>
  Modelled from the spec: \<^verbatim>\<open>UpdateRegion::extend\<close> takes the minimum of the tops and
  lefts and the maximum of the rights and bottoms; extending by a point extends by the
  one-pixel region at that point.
\<close>

definition extend_region :: "UpdateRegion \<Rightarrow> UpdateRegion \<Rightarrow> UpdateRegion" where
  "extend_region r other =
     (let new_top = min (top_y r) (top_y other);
          new_left = min (left r) (left other);
          right = max (left r + width r) (left other + width other);
          bottom = max (top_y r + height r) (top_y other + height other)
      in \<lparr>top_y = new_top, left = new_left,
          width = right - new_left, height = bottom - new_top\<rparr>)"

definition extend_point :: "UpdateRegion \<Rightarrow> coord \<Rightarrow> coord \<Rightarrow> UpdateRegion" where
  "extend_point r x y = extend_region r \<lparr>top_y = y, left = x, width = 1, height = 1\<rparr>"

text \<open>
  The invariant the spec states for a region of the panel: it ends at or before the
  right and bottom edges (sums without wrap-around).
\<close>

definition within_panel :: "panel \<Rightarrow> UpdateRegion \<Rightarrow> bool" where
  "within_panel P r \<longleftrightarrow>
     unat (left r) + unat (width r) \<le> unat (epd_width P) \<and>
     unat (top_y r) + unat (height r) \<le> unat (epd_height P)"

subsection \<open>\<^verbatim>\<open>Display::align_region\<close>\<close>

definition align_region :: "UpdateRegion \<Rightarrow> UpdateRegion" where
  "align_region region =
     (let mask = buf_actual_depth - 1 in
      if width region AND mask = 0 \<and> left region AND mask = 0 then region
      else
        let pad_left = left region AND mask in
        region\<lparr>left := left region AND NOT mask,
               width := (pad_left + width region + mask) AND NOT mask\<rparr>)"

subsection \<open>The region transform of \<^verbatim>\<open>Display::push_update\<close>\<close>

definition transform_region :: "panel \<Rightarrow> UpdateRegion \<Rightarrow> UpdateRegion" where
  "transform_region P region =
     \<lparr>top_y = epd_height P - left region - width region,
      left = epd_width P - top_y region - height region,
      width = height region,
      height = width region\<rparr>"

text \<open>
  The constraints on the geometry constants under which the generators stay inside
  their arrays: the panel is not empty, its width is a whole number of packed groups,
  its pixel count fits the 32-bit offsets the code computes, and a framebuffer row
  and page hold the panel with its margins.
\<close>

definition panel_ok :: "panel \<Rightarrow> bool" where
  "panel_ok P \<longleftrightarrow>
     0 < unat (epd_width P) \<and> 0 < unat (epd_height P) \<and>
     unat (epd_width P) mod 8 = 0 \<and>
     unat (epd_width P) * unat (epd_height P) < 4294967296 \<and>
     even (buf_stride P) \<and>
     (margin_left P + unat (epd_width P) div 8) * buf_depth \<le> buf_stride P \<and>
     margin_top P + unat (epd_height P) \<le> buf_height P"

definition buf_frame :: "panel \<Rightarrow> nat" where
  "buf_frame P = buf_stride P * buf_height P"

section \<open>Updates and the pending queue\<close>

text \<open>
  An update as \<^verbatim>\<open>push_update\<close> builds it (the timestamps of the performance report
  are left out). The field \<^verbatim>\<open>id\<close> of the source is \<open>id_u\<close> here. The pending queue is a
  list whose head is the front of the queue.
\<close>

record Update =
  id_u :: "UpdateID list"
  mode :: ModeID
  immediate :: bool
  region :: UpdateRegion
  buffer :: "Intensity list"

record display =
  pending_updates :: "Update list"
  next_update_id :: UpdateID
  current_intensity :: "Intensity list"
  next_intensity :: "Intensity list"
  waveform_steps :: "nat list"
  temperature :: int

subsection \<open>\<^verbatim>\<open>Display::push_update\<close>\<close>

text \<open>
  One pass of the loop that fills \<^verbatim>\<open>trans_buffer\<close>. The indices \<open>i\<close> and \<open>j\<close> are
  \<^verbatim>\<open>size_t\<close> values; where a subtraction would wrap or the read would leave the
  buffer the result is \<open>None\<close>.
\<close>

definition trans_pixel :: "UpdateRegion \<Rightarrow> Intensity list \<Rightarrow> nat \<Rightarrow> Intensity option" where
  "trans_pixel rgn buf k =
     (let h = unat (height rgn); w = unat (width rgn) in
      if h = 0 \<or> w \<le> k div h then None
      else
        let i = h - k mod h - 1; j = w - k div h - 1 in
        if i * w + j < length buf
        then Some (buf ! (i * w + j) AND (intensity_values - 1))
        else None)"

fun trans_loop :: "UpdateRegion \<Rightarrow> Intensity list \<Rightarrow> nat list \<Rightarrow> Intensity list option" where
  "trans_loop rgn buf [] = Some []"
| "trans_loop rgn buf (k # ks) =
     (case trans_pixel rgn buf k of
        None \<Rightarrow> None
      | Some v \<Rightarrow>
          (case trans_loop rgn buf ks of
             None \<Rightarrow> None
           | Some vs \<Rightarrow> Some (v # vs)))"

text \<open>
  The result is \<open>None\<close> when the copy loop reads outside the buffer; otherwise the
  returned flag and the display afterwards.
\<close>

definition push_update ::
  "panel \<Rightarrow> ModeID \<Rightarrow> bool \<Rightarrow> UpdateRegion \<Rightarrow> Intensity list \<Rightarrow> display
     \<Rightarrow> (bool \<times> display) option" where
  "push_update P m imm rgn buf d =
     (if length buf \<noteq> unat (width rgn * height rgn) then Some (False, d)
      else
        (case trans_loop rgn buf [0 ..< length buf] of
           None \<Rightarrow> None
         | Some trans_buffer \<Rightarrow>
             let region2 = transform_region P rgn in
             if left region2 \<ge> epd_width P
                \<or> top_y region2 \<ge> epd_height P
                \<or> left region2 + width region2 > epd_width P
                \<or> top_y region2 + height region2 > epd_height P
             then Some (False, d)
             else Some (True,
               d\<lparr>pending_updates := pending_updates d @
                    [\<lparr>id_u = [next_update_id d], mode = m, immediate = imm,
                      region = region2, buffer = trans_buffer\<rparr>],
                 next_update_id := next_update_id d + 1\<rparr>)))"

subsection \<open>\<^verbatim>\<open>Update::apply\<close>\<close>

text \<open>
  Modelled from the spec: \<^verbatim>\<open>Update::apply\<close> is declared in the header. It writes the
  update's buffer into the target array, row-major, at the update's region; the pixel
  \<open>(x, y)\<close> of the panel is the element \<open>y * epd_width + x\<close> of the array. The result is
  \<open>None\<close> where the region leaves the array or the buffer is not of the region's size.
\<close>

definition apply_update :: "Update \<Rightarrow> coord \<Rightarrow> Intensity list \<Rightarrow> Intensity list option" where
  "apply_update u target_width target =
     (let l = unat (left (region u)); t = unat (top_y (region u));
          w = unat (width (region u)); h = unat (height (region u));
          W = unat target_width
      in if l + w \<le> W \<and> (t + h) * W \<le> length target \<and> length (buffer u) = w * h
         then Some (map (\<lambda>i.
                if l \<le> i mod W \<and> i mod W < l + w \<and> t \<le> i div W \<and> i div W < t + h
                then buffer u ! ((i div W - t) * w + (i mod W - l))
                else target ! i) [0 ..< length target])
         else None)"

subsection \<open>\<^verbatim>\<open>Display::merge_updates\<close>\<close>

text \<open>
  The test made for an immediate update before a peer is merged: the two nested loops
  over the peer's region. The cursors \<open>step\<close> and \<open>cand\<close> are offsets into
  \<^verbatim>\<open>waveform_steps\<close> and \<^verbatim>\<open>next_intensity\<close>, \<open>nxt\<close> is an offset into the peer's buffer.
  The body of the inner loop reads through the three cursors and advances none of
  them; the outer loop advances \<open>step\<close> and \<open>cand\<close> by \<^verbatim>\<open>mid_offset\<close>. \<open>Some True\<close> is the
  early \<^verbatim>\<open>return\<close>, \<open>None\<close> a read outside an array.
\<close>

fun conflict_cols ::
  "nat list \<Rightarrow> Intensity list \<Rightarrow> Intensity list \<Rightarrow> nat \<Rightarrow> nat \<Rightarrow> nat \<Rightarrow> nat list
     \<Rightarrow> bool option" where
  "conflict_cols steps cands buf step cand nxt [] = Some False"
| "conflict_cols steps cands buf step cand nxt (x # xs) =
     (if cand < length cands \<and> nxt < length buf then
        if cands ! cand \<noteq> buf ! nxt then
          if step < length steps then
            if steps ! step > 0 then Some True
            else conflict_cols steps cands buf step cand nxt xs
          else None
        else conflict_cols steps cands buf step cand nxt xs
      else None)"

fun conflict_rows ::
  "nat list \<Rightarrow> Intensity list \<Rightarrow> Intensity list \<Rightarrow> nat \<Rightarrow> nat list \<Rightarrow> nat \<Rightarrow> nat \<Rightarrow> nat
     \<Rightarrow> nat list \<Rightarrow> bool option" where
  "conflict_rows steps cands buf mid_offset xs step cand nxt [] = Some False"
| "conflict_rows steps cands buf mid_offset xs step cand nxt (y # ys) =
     (case conflict_cols steps cands buf step cand nxt xs of
        None \<Rightarrow> None
      | Some True \<Rightarrow> Some True
      | Some False \<Rightarrow>
          conflict_rows steps cands buf mid_offset xs
            (step + mid_offset) (cand + mid_offset) nxt ys)"

definition merge_conflict :: "panel \<Rightarrow> display \<Rightarrow> Update \<Rightarrow> bool option" where
  "merge_conflict P d next_update =
     (let r = region next_update;
          start_offset = unat (top_y r * epd_width P + left r);
          mid_offset = unat (epd_width P - width r)
      in conflict_rows (waveform_steps d) (next_intensity d) (buffer next_update) mid_offset
           [unat (left r) ..< unat (left r + width r)]
           start_offset start_offset 0
           [unat (top_y r) ..< unat (top_y r + height r)])"

text \<open>
  The \<^verbatim>\<open>while\<close> loop over the pending queue: every pass either returns or pops the
  front of the queue, so the loop is a recursion on the queue.
\<close>

fun merge_loop ::
  "panel \<Rightarrow> Update \<Rightarrow> display \<Rightarrow> Update list \<Rightarrow> (Update \<times> display) option" where
  "merge_loop P cur_update d [] = Some (cur_update, d\<lparr>pending_updates := []\<rparr>)"
| "merge_loop P cur_update d (next_update # rest) =
     (if immediate cur_update \<noteq> immediate next_update \<or> mode cur_update \<noteq> mode next_update
      then Some (cur_update, d\<lparr>pending_updates := next_update # rest\<rparr>)
      else
        let merged_region = extend_region (region cur_update) (region next_update) in
        (case (if immediate cur_update then merge_conflict P d next_update else Some False) of
           None \<Rightarrow> None
         | Some True \<Rightarrow> Some (cur_update, d\<lparr>pending_updates := next_update # rest\<rparr>)
         | Some False \<Rightarrow>
             (case apply_update next_update (epd_width P) (next_intensity d) of
                None \<Rightarrow> None
              | Some nxt \<Rightarrow>
                  merge_loop P
                    (cur_update\<lparr>region := merged_region,
                                id_u := id_u cur_update @ id_u next_update\<rparr>)
                    (d\<lparr>next_intensity := nxt\<rparr>) rest)))"

definition merge_updates :: "panel \<Rightarrow> Update \<Rightarrow> display \<Rightarrow> (Update \<times> display) option" where
  "merge_updates P cur_update d = merge_loop P cur_update d (pending_updates d)"

section \<open>Frame generation\<close>

text \<open>
  Modelled from the spec: a phase is a two-bit drive command, encoded
  \<^verbatim>\<open>Noop = 00b, Black = 01b, White = 10b, Toggle = 11b\<close>; the cast of the source gives
  this code as a byte. A phase matrix is indexed by two intensities (the reads are
  guarded by \<^verbatim>\<open>intensity_values\<close> where the code indexes it), a waveform is the list of
  its matrices and the waveform table is a function of the mode and the temperature.
\<close>

datatype Phase = Noop | Black | White | Toggle

fun phase_code :: "Phase \<Rightarrow> 8 word" where
  "phase_code Noop = 0"
| "phase_code Black = 1"
| "phase_code White = 2"
| "phase_code Toggle = 3"

type_synonym PhaseMatrix = "Intensity \<Rightarrow> Intensity \<Rightarrow> Phase"
type_synonym Waveform = "PhaseMatrix list"
type_synonym WaveformTable = "ModeID \<Rightarrow> int \<Rightarrow> Waveform"

text \<open>
  A frame is seen through the \<^verbatim>\<open>uint16_t\<close> pointer the generators write with: the list
  of its 16-bit words, the word \<open>i\<close> standing at the byte offset \<open>2 * i\<close>.
\<close>

type_synonym frame = "16 word list"

subsection \<open>The three nested loops of the generators\<close>

text \<open>
  \<^verbatim>\<open>generate_batch\<close> and \<^verbatim>\<open>generate_immediate\<close> walk the aligned region with the same
  three loops and differ in what they do at a pixel of the update's region. The
  loops are given once, with the work at a pixel as the function \<open>f\<close>: it gets the
  offset \<open>off\<close> that the pointers \<^verbatim>\<open>prev\<close>, \<^verbatim>\<open>next\<close> (and \<^verbatim>\<open>step\<close>) have reached (the code
  starts them at the same offset of their arrays and advances them together), the
  coordinates of the pixel and the state its side effects change, and returns the
  phase and the new state, or \<open>None\<close> for a read outside an array.

  The innermost loop: \<open>xs\<close> are the values \<open>x\<close> takes.
\<close>

fun walk_pixels ::
  "(nat \<Rightarrow> nat \<Rightarrow> nat \<Rightarrow> 's \<Rightarrow> (8 word \<times> 's) option) \<Rightarrow> UpdateRegion \<Rightarrow> nat \<Rightarrow> nat list
     \<Rightarrow> 16 word \<times> nat \<times> 's \<Rightarrow> (16 word \<times> nat \<times> 's) option" where
  "walk_pixels f r y [] (phases, off, s) = Some (phases, off, s)"
| "walk_pixels f r y (x # xs) (phases, off, s) =
     (let phases' = push_bit 2 phases in
      if contains r (word_of_nat x) (word_of_nat y) then
        (case f off x y s of
           None \<Rightarrow> None
         | Some (phase, s') \<Rightarrow>
             walk_pixels f r y xs (phases' OR ucast phase, off + 1, s'))
      else walk_pixels f r y xs (phases', off, s))"

text \<open>
  The loop over the groups of a row: \<open>sx\<close> runs from the left edge of the aligned
  region in steps of \<^verbatim>\<open>buf_actual_depth\<close> while it is below \<open>limit\<close>. \<open>data\<close> is the index
  of the word the pointer \<^verbatim>\<open>data\<close> points to; it moves on by two words. Where \<open>sx\<close> would
  wrap around, and where the store would leave the frame, the result is \<open>None\<close>.
\<close>

function walk_groups ::
  "(nat \<Rightarrow> nat \<Rightarrow> nat \<Rightarrow> 's \<Rightarrow> (8 word \<times> 's) option) \<Rightarrow> UpdateRegion \<Rightarrow> nat \<Rightarrow> nat \<Rightarrow> nat
     \<Rightarrow> frame \<times> nat \<times> nat \<times> 's \<Rightarrow> (frame \<times> nat \<times> nat \<times> 's) option" where
  "walk_groups f r y sx limit (fr, data, off, s) =
     (if sx < limit then
        if sx + 8 < 4294967296 then
          (case walk_pixels f r y [sx ..< sx + 8] (0, off, s) of
             None \<Rightarrow> None
           | Some (phases, off', s') \<Rightarrow>
               if data < length fr
               then walk_groups f r y (sx + 8) limit (fr[data := phases], data + 2, off', s')
               else None)
        else None
      else Some (fr, data, off, s))"
  by pat_completeness auto
termination
  by (relation "measure (\<lambda>(f, r, y, sx, limit, st). limit - sx)") auto

text \<open>
  The loop over the rows: \<open>ys\<close> are the values \<open>y\<close> takes. After a row the offset moves
  on by \<^verbatim>\<open>mid_offset\<close> and \<open>data\<close> by the rest of the framebuffer row.
\<close>

fun walk_rows ::
  "(nat \<Rightarrow> nat \<Rightarrow> nat \<Rightarrow> 's \<Rightarrow> (8 word \<times> 's) option) \<Rightarrow> UpdateRegion \<Rightarrow> nat \<Rightarrow> nat \<Rightarrow> nat
     \<Rightarrow> nat \<Rightarrow> nat list \<Rightarrow> frame \<times> nat \<times> nat \<times> 's \<Rightarrow> (frame \<times> nat \<times> nat \<times> 's) option" where
  "walk_rows f r sx0 limit row_skip mid_offset [] st = Some st"
| "walk_rows f r sx0 limit row_skip mid_offset (y # ys) st =
     (case walk_groups f r y sx0 limit st of
        None \<Rightarrow> None
      | Some (fr, data, off, s) \<Rightarrow>
          walk_rows f r sx0 limit row_skip mid_offset ys
            (fr, data + row_skip, off + mid_offset, s))"

text \<open>
  The loops with their initialisation. The byte offsets of \<open>data\<close> are natural numbers
  (sums and products of the geometry constants that do not wrap); the result is
  \<open>None\<close> where an offset is odd or the step to the next row would be negative.
\<close>

definition walk ::
  "panel \<Rightarrow> (nat \<Rightarrow> nat \<Rightarrow> nat \<Rightarrow> 's \<Rightarrow> (8 word \<times> 's) option) \<Rightarrow> UpdateRegion \<Rightarrow> frame \<Rightarrow> 's
     \<Rightarrow> (frame \<times> 's) option" where
  "walk P f r null_frame s =
     (let aligned_region = align_region r;
          groups = unat (width aligned_region div buf_actual_depth);
          data0 = (margin_top P + unat (top_y aligned_region)) * buf_stride P
                  + (margin_left P + unat (left aligned_region div buf_actual_depth)) * buf_depth;
          start_offset = unat (top_y r * epd_width P + left r);
          mid_offset = unat (epd_width P - width r)
      in if even (buf_stride P) \<and> groups * buf_depth \<le> buf_stride P then
           (case walk_rows f r
                   (unat (left aligned_region))
                   (unat (left aligned_region + width aligned_region))
                   ((buf_stride P - groups * buf_depth) div 2) mid_offset
                   [unat (top_y aligned_region) ..<
                      unat (top_y aligned_region + height aligned_region)]
                   (null_frame, data0 div 2, start_offset, s) of
              None \<Rightarrow> None
            | Some (fr, data, off, s') \<Rightarrow> Some (fr, s'))
         else None)"

subsection \<open>\<^verbatim>\<open>Display::generate_batch\<close>\<close>

text \<open>The work at a pixel: the phase \<^verbatim>\<open>matrix[*prev][*next]\<close>.\<close>

definition batch_pixel ::
  "PhaseMatrix \<Rightarrow> Intensity list \<Rightarrow> Intensity list \<Rightarrow> nat \<Rightarrow> nat \<Rightarrow> nat \<Rightarrow> unit
     \<Rightarrow> (8 word \<times> unit) option" where
  "batch_pixel matrix prev nxt off x y s =
     (if off < length prev \<and> off < length nxt
         \<and> prev ! off < intensity_values \<and> nxt ! off < intensity_values
      then Some (phase_code (matrix (prev ! off) (nxt ! off)), ())
      else None)"

text \<open>The loop over the steps of the waveform: one frame for each matrix.\<close>

fun batch_frames ::
  "panel \<Rightarrow> UpdateRegion \<Rightarrow> Intensity list \<Rightarrow> Intensity list \<Rightarrow> frame \<Rightarrow> Waveform
     \<Rightarrow> frame list option" where
  "batch_frames P r prev nxt null_frame [] = Some []"
| "batch_frames P r prev nxt null_frame (matrix # rest) =
     (case walk P (batch_pixel matrix prev nxt) r null_frame () of
        None \<Rightarrow> None
      | Some (fr, u) \<Rightarrow>
          (case batch_frames P r prev nxt null_frame rest of
             None \<Rightarrow> None
           | Some frs \<Rightarrow> Some (fr # frs)))"

text \<open>
  The result is the batch handed to \<^verbatim>\<open>send_frames\<close>, the update after the merges and
  the display afterwards.
\<close>

definition generate_batch ::
  "panel \<Rightarrow> WaveformTable \<Rightarrow> frame \<Rightarrow> Update \<Rightarrow> display
     \<Rightarrow> (frame list \<times> Update \<times> display) option" where
  "generate_batch P table null_frame update d =
     (let waveform = table (mode update) (temperature d) in
      case apply_update update (epd_width P) (current_intensity d) of
        None \<Rightarrow> None
      | Some nxt \<Rightarrow>
          (case merge_updates P update (d\<lparr>next_intensity := nxt\<rparr>) of
             None \<Rightarrow> None
           | Some (update', d') \<Rightarrow>
               (case batch_frames P (region update') (current_intensity d')
                       (next_intensity d') null_frame waveform of
                  None \<Rightarrow> None
                | Some frames \<Rightarrow>
                    Some (frames, update',
                          d'\<lparr>current_intensity := next_intensity d'\<rparr>))))"

subsection \<open>\<^verbatim>\<open>Display::generate_immediate\<close>\<close>

text \<open>
  The work at a pixel. The state is the flag \<^verbatim>\<open>finished\<close>, \<^verbatim>\<open>active_region\<close>, and the
  arrays \<^verbatim>\<open>waveform_steps\<close> and \<^verbatim>\<open>current_intensity\<close>.
\<close>

definition immediate_pixel ::
  "Waveform \<Rightarrow> Intensity list \<Rightarrow> nat \<Rightarrow> nat \<Rightarrow> nat
     \<Rightarrow> bool \<times> UpdateRegion \<times> nat list \<times> Intensity list
     \<Rightarrow> (8 word \<times> bool \<times> UpdateRegion \<times> nat list \<times> Intensity list) option" where
  "immediate_pixel waveform nxt off x y st =
     (case st of (finished, active_region, steps, prev) \<Rightarrow>
        if off < length prev \<and> off < length nxt then
          if prev ! off \<noteq> nxt ! off then
            if off < length steps \<and> steps ! off < length waveform
               \<and> prev ! off < intensity_values \<and> nxt ! off < intensity_values
            then
              let phase = (waveform ! (steps ! off)) (prev ! off) (nxt ! off);
                  active_region' = extend_point active_region (word_of_nat x) (word_of_nat y);
                  step' = steps ! off + 1
              in if step' = length waveform
                 then Some (phase_code phase,
                            False, active_region', steps[off := 0], prev[off := nxt ! off])
                 else Some (phase_code phase,
                            False, active_region', steps[off := step'], prev)
            else None
          else Some (phase_code Noop, finished, active_region, steps, prev)
        else None)"

text \<open>
  The \<^verbatim>\<open>while (!finished)\<close> loop. It need not end, so it is given fuel: the number of
  passes it may make; the result is \<open>None\<close> when the fuel runs out before a pass finds
  nothing to do (and for a read or store outside an array). Otherwise the result is
  the list of the batches handed to \<^verbatim>\<open>send_frames\<close>, one frame each, the update and the
  display at the end.
\<close>

fun immediate_loop ::
  "nat \<Rightarrow> panel \<Rightarrow> Waveform \<Rightarrow> frame \<Rightarrow> Update \<Rightarrow> display
     \<Rightarrow> (frame list list \<times> Update \<times> display) option" where
  "immediate_loop 0 P waveform null_frame update d = None"
| "immediate_loop (Suc fuel) P waveform null_frame update d =
     (case merge_updates P update d of
        None \<Rightarrow> None
      | Some (update', d') \<Rightarrow>
          (case walk P (immediate_pixel waveform (next_intensity d')) (region update') null_frame
                  (True, \<lparr>top_y = 0, left = 0, width = 0, height = 0\<rparr>,
                   waveform_steps d', current_intensity d') of
             None \<Rightarrow> None
           | Some (fr, finished, active_region, steps, prev) \<Rightarrow>
               let d'' = d'\<lparr>waveform_steps := steps, current_intensity := prev\<rparr> in
               if finished then Some ([], update', d'')
               else
                 (case immediate_loop fuel P waveform null_frame
                         (update'\<lparr>region := active_region\<rparr>) d'' of
                    None \<Rightarrow> None
                  | Some (batches, u, e) \<Rightarrow> Some ([fr] # batches, u, e))))"

definition generate_immediate ::
  "nat \<Rightarrow> panel \<Rightarrow> WaveformTable \<Rightarrow> frame \<Rightarrow> Update \<Rightarrow> display
     \<Rightarrow> (frame list list \<times> Update \<times> display) option" where
  "generate_immediate fuel P table null_frame update d =
     (let waveform = table (mode update) (temperature d);
          d0 = d\<lparr>waveform_steps := replicate (length (waveform_steps d)) 0\<rparr>
      in case apply_update update (epd_width P) (current_intensity d0) of
           None \<Rightarrow> None
         | Some nxt \<Rightarrow> immediate_loop fuel P waveform null_frame update (d0\<lparr>next_intensity := nxt\<rparr>))"

section \<open>The temperature sensor and the vsync thread\<close>

subsection \<open>\<^verbatim>\<open>Display::update_temperature\<close>\<close>

text \<open>
  The local array \<^verbatim>\<open>char buffer[12]\<close> is a list of bytes; a store at an index outside
  the list is the error \<open>Store_out_of_bounds\<close>, the two exceptions of the source are
  \<open>Seek_failed\<close> and \<open>Read_failed\<close>, and \<open>Parse_failed\<close> is an exception of \<^verbatim>\<open>std::stoi\<close>.
\<close>

datatype temp_error = Seek_failed | Read_failed | Store_out_of_bounds | Parse_failed

definition sizeof_buffer :: nat where
  "sizeof_buffer = 12"

definition store_char :: "8 word list \<Rightarrow> nat \<Rightarrow> 8 word \<Rightarrow> temp_error + 8 word list" where
  "store_char buf i c = (if i < length buf then Inr (buf[i := c]) else Inl Store_out_of_bounds)"

text \<open>
  The index of the terminating store, from the value \<^verbatim>\<open>read\<close> returned: a word of the
  width \<open>'w\<close> of \<^verbatim>\<open>ssize_t\<close>, read as unsigned by the cast to \<^verbatim>\<open>size_t\<close>.
\<close>

definition terminator_index :: "'w::len word \<Rightarrow> nat" where
  "terminator_index size' =
     (if unat size' \<ge> sizeof_buffer then sizeof_buffer - 1 else unat size')"

text \<open>
  The environment of the function: \<open>due\<close> says that the cached temperature is older
  than \<^verbatim>\<open>temperature_read_interval\<close>, \<open>seek_ok\<close> that \<^verbatim>\<open>lseek\<close> returned 0, \<open>sensor_read\<close> is
  the system call \<^verbatim>\<open>read\<close> (from the byte count asked for and the buffer before to the
  value returned and the buffer after) and \<open>stoi\<close> is \<^verbatim>\<open>std::stoi\<close>. \<open>buffer0\<close> is the
  uninitialised local array.
\<close>

definition update_temperature ::
  "(8 word list \<Rightarrow> int option) \<Rightarrow> bool \<Rightarrow> bool
     \<Rightarrow> (nat \<Rightarrow> 8 word list \<Rightarrow> 'w::len word \<times> 8 word list) \<Rightarrow> 8 word list \<Rightarrow> display
     \<Rightarrow> temp_error + display" where
  "update_temperature stoi due seek_ok sensor_read buffer0 d =
     (if \<not> due then Inr d
      else if \<not> seek_ok then Inl Seek_failed
      else
        (case sensor_read sizeof_buffer buffer0 of (size', buffer1) \<Rightarrow>
           if size' = - 1 then Inl Read_failed
           else
             (case store_char buffer1 (terminator_index size') 0 of
                Inl e \<Rightarrow> Inl e
              | Inr buffer2 \<Rightarrow>
                  (case stoi buffer2 of
                     None \<Rightarrow> Inl Parse_failed
                   | Some result \<Rightarrow> Inr (d\<lparr>temperature := result\<rparr>)))))"

subsection \<open>\<^verbatim>\<open>Display::set_power\<close> and \<^verbatim>\<open>Display::run_vsync_thread\<close>\<close>

text \<open>
  The vsync thread is modelled by the sequence of the actions it takes that are seen
  from outside: its waits on \<^verbatim>\<open>vsync_can_read_cv\<close>, its ioctls, the call of
  \<^verbatim>\<open>update_temperature\<close>, its copies into the framebuffer (with the byte offset of the
  destination) and the release of the buffer to the generator. \<open>Blank True\<close> is
  \<^verbatim>\<open>FBIOBLANK\<close> with \<^verbatim>\<open>FB_BLANK_UNBLANK\<close>, \<open>Blank False\<close> with \<^verbatim>\<open>FB_BLANK_POWERDOWN\<close>;
  \<open>Flip True\<close> is \<^verbatim>\<open>FBIOPUT_VSCREENINFO\<close>, \<open>Flip False\<close> is \<^verbatim>\<open>FBIOPAN_DISPLAY\<close>, both with the
  \<^verbatim>\<open>yoffset\<close> they pass.
\<close>

datatype action =
    Wait_for
  | Wait_untimed
  | Blank bool
  | Update_temperature
  | Memcpy nat frame
  | Flip bool nat
  | Release

text \<open>
  \<^verbatim>\<open>set_power\<close>: the actions taken and the new \<^verbatim>\<open>power_state\<close>; \<open>ioctl_ok\<close> says that the
  ioctl returns 0.
\<close>

definition set_power :: "bool \<Rightarrow> bool \<Rightarrow> bool \<Rightarrow> action list \<times> bool" where
  "set_power ioctl_ok target current =
     (if target \<noteq> current
      then ([Blank target], if ioctl_ok then target else current)
      else ([], current))"

text \<open>
  The state of the thread: the member \<^verbatim>\<open>power_state\<close> and the two local variables.
\<close>

record vsync_state =
  power_state :: bool
  next_frame :: nat
  first_frame :: bool

definition vsync_start :: "bool \<Rightarrow> vsync_state" where
  "vsync_start on = \<lparr>power_state = on, next_frame = 0, first_frame = True\<rparr>"

text \<open>
  What the rest of the system does during one pass of the thread's loop:
  \<open>stopping_head\<close> and \<open>stopping_wait\<close> are the values of \<^verbatim>\<open>stopping_vsync\<close> at the loop
  test and after the wait, \<open>timed_out\<close> says that \<^verbatim>\<open>wait_for\<close> returned false,
  \<open>blank_off_ok\<close> and \<open>blank_on_ok\<close> that the ioctl of \<^verbatim>\<open>set_power\<close> succeeds,
  \<open>temperature_ok\<close> that \<^verbatim>\<open>update_temperature\<close> returns without an exception,
  \<open>vsync_buffer\<close> is the batch and \<open>flip_ok k\<close> says that the ioctl for frame \<open>k\<close> does not
  return -1.
\<close>

record round_env =
  stopping_head :: bool
  timed_out :: bool
  stopping_wait :: bool
  blank_off_ok :: bool
  blank_on_ok :: bool
  temperature_ok :: bool
  vsync_buffer :: "frame list"
  flip_ok :: "nat \<Rightarrow> bool"

text \<open>
  The loop over the frames of a batch; the flag returned says that the loop ran to
  its end (it is false after the \<^verbatim>\<open>return\<close> on a failed ioctl).
\<close>

fun vsync_frames ::
  "panel \<Rightarrow> (nat \<Rightarrow> bool) \<Rightarrow> nat \<Rightarrow> frame list \<Rightarrow> nat \<times> bool
     \<Rightarrow> action list \<times> (nat \<times> bool) \<times> bool" where
  "vsync_frames P ok k [] (nf, ff) = ([], (nf, ff), True)"
| "vsync_frames P ok k (fr # frs) (nf, ff) =
     (let nf' = (nf + 1) mod 2;
          acts = [Memcpy (nf' * buf_frame P) fr, Flip ff (nf' * buf_height P)]
      in if ok k then
           (case vsync_frames P ok (k + 1) frs (nf', False) of
              (acts', st, cont) \<Rightarrow> (acts @ acts', st, cont))
         else (acts, (nf', ff), False))"

text \<open>
  One pass of the \<^verbatim>\<open>while\<close> loop: the actions, the state afterwards and whether the
  thread goes on.
\<close>

definition vsync_round ::
  "panel \<Rightarrow> round_env \<Rightarrow> vsync_state \<Rightarrow> action list \<times> vsync_state \<times> bool" where
  "vsync_round P e s =
     (if stopping_head e then ([], s, False)
      else
        let (a1, p1) =
              (if timed_out e then
                 (case set_power (blank_off_ok e) False (power_state s) of
                    (a, p) \<Rightarrow> (Wait_for # a @ [Wait_untimed], p))
               else ([Wait_for], power_state s))
        in if stopping_wait e then (a1, s\<lparr>power_state := p1\<rparr>, False)
           else
             (case set_power (blank_on_ok e) True p1 of (a2, p2) \<Rightarrow>
                if \<not> temperature_ok e
                then (a1 @ a2 @ [Update_temperature], s\<lparr>power_state := p2\<rparr>, False)
                else
                  (case vsync_frames P (flip_ok e) 0 (vsync_buffer e)
                          (next_frame s, first_frame s) of
                     (a3, (nf, ff), cont) \<Rightarrow>
                       (a1 @ a2 @ [Update_temperature] @ a3 @ (if cont then [Release] else []),
                        \<lparr>power_state = p2, next_frame = nf, first_frame = ff\<rparr>,
                        cont))))"

text \<open>The thread over the passes the environment lets it make.\<close>

fun run_vsync_thread :: "panel \<Rightarrow> round_env list \<Rightarrow> vsync_state \<Rightarrow> action list" where
  "run_vsync_thread P [] s = []"
| "run_vsync_thread P (e # es) s =
     (case vsync_round P e s of
        (acts, s', cont) \<Rightarrow> acts @ (if cont then run_vsync_thread P es s' else []))"

text \<open>The destinations of the copies of a sequence of actions, in order.\<close>

fun copies :: "action list \<Rightarrow> nat list" where
  "copies [] = []"
| "copies (Memcpy dst fr # acts) = dst # copies acts"
| "copies (a # acts) = copies acts"

section \<open>Auxiliary definitions of the proofs\<close>

text \<open>
  The destinations of \<open>m\<close> successive copies of the vsync thread when its variable
  \<^verbatim>\<open>next_frame\<close> is \<open>nf\<close>.
\<close>

fun pages :: "panel \<Rightarrow> nat \<Rightarrow> nat \<Rightarrow> nat list" where
  "pages P nf 0 = []"
| "pages P nf (Suc m) = ((nf + 1) mod 2) * buf_frame P # pages P ((nf + 1) mod 2) m"

text \<open>
  A small panel of 16 by 2 pixels with a margin of one row and one group, and a
  display on it that shows intensity 0 everywhere; they are the concrete inputs of
  the examples.
\<close>

definition small_panel :: panel where
  "small_panel =
     \<lparr>epd_width = 16, epd_height = 2, buf_stride = 16, buf_height = 3,
      margin_top = 1, margin_left = 1\<rparr>"

definition small_display :: display where
  "small_display =
     \<lparr>pending_updates = [], next_update_id = 1,
      current_intensity = replicate 32 0, next_intensity = replicate 32 0,
      waveform_steps = replicate 32 0, temperature = 24\<rparr>"

definition small_null_frame :: frame where
  "small_null_frame = replicate 24 0"

text \<open>
  The loops of the generators without their cursors: the work at a pixel gets the
  offset \<open>y * W + x\<close> of the pixel instead of the offset the pointers have reached, and
  the test of the columns is made on natural numbers. \<open>pack\<close> is the accumulation of
  the phases of a group in a 16-bit word.
\<close>

definition inside :: "UpdateRegion \<Rightarrow> nat \<Rightarrow> bool" where
  "inside r x \<longleftrightarrow> unat (left r) \<le> x \<and> x < unat (left r) + unat (width r)"

definition clamp :: "UpdateRegion \<Rightarrow> nat \<Rightarrow> nat" where
  "clamp r x = min (max x (unat (left r))) (unat (left r) + unat (width r))"

fun pack :: "16 word \<Rightarrow> 8 word list \<Rightarrow> 16 word" where
  "pack phases [] = phases"
| "pack phases (c # cs) = pack (push_bit 2 phases OR ucast c) cs"

fun pix_run ::
  "(nat \<Rightarrow> nat \<Rightarrow> nat \<Rightarrow> 's \<Rightarrow> (8 word \<times> 's) option) \<Rightarrow> UpdateRegion \<Rightarrow> nat \<Rightarrow> nat \<Rightarrow> nat list
     \<Rightarrow> 's \<Rightarrow> (8 word list \<times> 's) option" where
  "pix_run f r W y [] s = Some ([], s)"
| "pix_run f r W y (x # xs) s =
     (if inside r x then
        (case f (y * W + x) x y s of
           None \<Rightarrow> None
         | Some (c, s') \<Rightarrow>
             (case pix_run f r W y xs s' of
                None \<Rightarrow> None
              | Some (cs, s'') \<Rightarrow> Some (c # cs, s'')))
      else
        (case pix_run f r W y xs s of
           None \<Rightarrow> None
         | Some (cs, s'') \<Rightarrow> Some (0 # cs, s'')))"

function grp_run ::
  "(nat \<Rightarrow> nat \<Rightarrow> nat \<Rightarrow> 's \<Rightarrow> (8 word \<times> 's) option) \<Rightarrow> UpdateRegion \<Rightarrow> nat \<Rightarrow> nat \<Rightarrow> nat \<Rightarrow> nat
     \<Rightarrow> frame \<times> nat \<times> 's \<Rightarrow> (frame \<times> nat \<times> 's) option" where
  "grp_run f r W y sx limit (fr, data, s) =
     (if sx < limit then
        (case pix_run f r W y [sx ..< sx + 8] s of
           None \<Rightarrow> None
         | Some (cs, s') \<Rightarrow>
             if data < length fr
             then grp_run f r W y (sx + 8) limit (fr[data := pack 0 cs], data + 2, s')
             else None)
      else Some (fr, data, s))"
  by pat_completeness auto
termination
  by (relation "measure (\<lambda>(f, r, W, y, sx, limit, st). limit - sx)") auto

fun rows_run ::
  "(nat \<Rightarrow> nat \<Rightarrow> nat \<Rightarrow> 's \<Rightarrow> (8 word \<times> 's) option) \<Rightarrow> UpdateRegion \<Rightarrow> nat \<Rightarrow> nat \<Rightarrow> nat \<Rightarrow> nat
     \<Rightarrow> nat list \<Rightarrow> frame \<times> nat \<times> 's \<Rightarrow> (frame \<times> nat \<times> 's) option" where
  "rows_run f r W sx0 limit row_skip [] st = Some st"
| "rows_run f r W sx0 limit row_skip (y # ys) st =
     (case grp_run f r W y sx0 limit st of
        None \<Rightarrow> None
      | Some (fr, data, s) \<Rightarrow> rows_run f r W sx0 limit row_skip ys (fr, data + row_skip, s))"

text \<open>
  The phase of the pixel \<open>(x, y)\<close> in a frame of \<^verbatim>\<open>generate_batch\<close>, as the byte that is
  packed, and the index of the 16-bit word of the group at column \<open>sx\<close> in row \<open>y\<close>,
  which stands at the byte offset
  \<open>(margin_top + y) * buf_stride + (margin_left + sx / 8) * buf_depth\<close> of a frame.
\<close>

definition batch_lane ::
  "PhaseMatrix \<Rightarrow> Intensity list \<Rightarrow> Intensity list \<Rightarrow> UpdateRegion \<Rightarrow> nat \<Rightarrow> nat \<Rightarrow> nat
     \<Rightarrow> 8 word" where
  "batch_lane matrix prev nxt r W y x =
     (if inside r x then phase_code (matrix (prev ! (y * W + x)) (nxt ! (y * W + x))) else 0)"

definition word_index :: "panel \<Rightarrow> nat \<Rightarrow> nat \<Rightarrow> nat" where
  "word_index P sx y =
     ((margin_top P + y) * buf_stride P + (margin_left P + sx div 8) * buf_depth) div 2"

text \<open>
  An update that \<^verbatim>\<open>push_update\<close> may have queued on the panel: its region lies within
  the panel, its buffer has the size of the region and holds intensities below
  \<^verbatim>\<open>intensity_values\<close>.
\<close>

definition update_ok :: "panel \<Rightarrow> Update \<Rightarrow> bool" where
  "update_ok P u \<longleftrightarrow>
     within_panel P (region u) \<and>
     length (buffer u) = unat (width (region u)) * unat (height (region u)) \<and>
     (\<forall>v\<in>set (buffer u). v < intensity_values)"

section \<open>Word arithmetic used by the proofs\<close>

lemma seven_mask: "(7::coord) = mask 3"
  by (simp add: mask_eq_exp_minus_1)

lemma unat_coord_bound: "unat (x::coord) < 4294967296"
  using unsigned_less [of x, where 'a = nat] by simp

lemma unat_and_7: "unat ((x::coord) AND 7) = unat x mod 8"
  unfolding seven_mask
  by (simp add: unat_mod flip: take_bit_eq_mask) (simp add: take_bit_eq_mod unat_mod)

lemma and_not_7: "(x::coord) AND NOT 7 = 8 * (x div 8)"
proof -
  have "x AND NOT 7 = push_bit 3 (drop_bit 3 x)"
    unfolding seven_mask by (rule bit_word_eqI) (auto simp: bit_simps)
  then show ?thesis
    by (simp add: push_bit_eq_mult drop_bit_eq_div)
qed

lemma unat_and_not_7: "unat ((x::coord) AND NOT 7) = 8 * (unat x div 8)"
proof -
  have "unat x div 8 < 4294967296" "8 * (unat x div 8) < 4294967296"
    using unat_coord_bound [of x] by simp_all
  then have "unat (8 * (x div 8)) = 8 * (unat x div 8)"
    by (simp add: unat_word_ariths unat_div)
  then show ?thesis
    by (simp only: and_not_7)
qed

lemma and_7_eq_0: "(x::coord) AND 7 = 0 \<longleftrightarrow> unat x mod 8 = 0"
  by (metis unat_and_7 unat_eq_0)

lemma unat_add_coord:
  "unat (a::coord) + unat b < 4294967296 \<Longrightarrow> unat (a + b) = unat a + unat b"
  by (simp add: unat_word_ariths)

lemma round_up_ge: "(n::nat) \<le> 8 * ((n + 7) div 8)"
  by linarith
lemma round_cover: "(l::nat) + w \<le> 8 * (l div 8) + 8 * ((l mod 8 + w + 7) div 8)"
  using round_up_ge [of "l mod 8 + w"] mod_mult_div_eq [of l 8] by linarith
lemma round_up_dvd:
  assumes "(W::nat) mod 8 = 0" "n \<le> W"
  shows "8 * ((n + 7) div 8) \<le> W"
proof -
  from assms(1) obtain k where k: "W = 8 * k"
    by (auto simp: mod_eq_0_iff_dvd)
  have "(n + 7) div 8 \<le> (8 * k + 7) div 8"
    using assms(2) k by (intro div_le_mono) simp
  also have "\<dots> = k"
    by simp
  finally show ?thesis
    using k by simp
qed
lemma round_inside:
  assumes "(W::nat) mod 8 = 0" "l + w \<le> W"
  shows "8 * (l div 8) + 8 * ((l mod 8 + w + 7) div 8) \<le> W"
proof -
  have "l + w + 7 = (l mod 8 + w + 7) + 8 * (l div 8)"
    by simp
  then have "(l + w + 7) div 8 = l div 8 + (l mod 8 + w + 7) div 8"
    by (simp only: div_mult_self2)
  then have "8 * (l div 8) + 8 * ((l mod 8 + w + 7) div 8) = 8 * ((l + w + 7) div 8)"
    by simp
  then show ?thesis using round_up_dvd [OF assms] by simp
qed
section \<open>Regions: alignment and the coordinate transform\<close>

lemma unat_and_m8: "unat ((x::coord) AND - 8) = 8 * (unat x div 8)"
  using unat_and_not_7 [of x] by simp

lemma word_mod_8: "(x::coord) mod 8 = 0 \<longleftrightarrow> unat x mod 8 = 0"
  by (simp add: unat_mod flip: unat_eq_0)

lemma panel_ok_width:
  assumes "panel_ok P"
  shows "unat (epd_width P) + 8 \<le> 4294967296"
proof -
  have "unat (epd_width P) mod 8 = 0"
    using assms by (simp add: panel_ok_def)
  then obtain k where k: "unat (epd_width P) = 8 * k"
    by (auto simp: mod_eq_0_iff_dvd)
  with unat_coord_bound [of "epd_width P"] show ?thesis
    by simp
qed

lemma align_region_fields:
  "top_y (align_region r) = top_y r" "height (align_region r) = height r"
  by (simp_all add: align_region_def Let_def)

lemma align_region_unat_left: "unat (left (align_region r)) = 8 * (unat (left r) div 8)"
  by (auto simp: align_region_def Let_def buf_actual_depth_def unat_and_m8 and_7_eq_0)

lemma align_region_unat_width:
  assumes "unat (left r) + unat (width r) + 8 \<le> 4294967296"
  shows "unat (width (align_region r)) = 8 * ((unat (left r) mod 8 + unat (width r) + 7) div 8)"
proof -
  have s: "unat ((left r AND 7) + width r + 7) = unat (left r) mod 8 + unat (width r) + 7"
    using assms by (simp add: unat_word_ariths unat_and_7)
  show ?thesis
  proof (cases "width r AND 7 = 0 \<and> left r AND 7 = 0")
    case True
    then show ?thesis
      by (auto simp: align_region_def Let_def buf_actual_depth_def and_7_eq_0)
  next
    case False
    then have "width (align_region r) = ((left r AND 7) + width r + 7) AND - 8"
      by (auto simp: align_region_def Let_def buf_actual_depth_def)
    then show ?thesis
      by (simp add: unat_and_m8 s)
  qed
qed

lemma align_region_aligned:
  "left (align_region r) AND 7 = 0" "width (align_region r) AND 7 = 0"
  by (auto simp: align_region_def Let_def buf_actual_depth_def and_7_eq_0 unat_and_m8)

lemma align_region_idem: "align_region (align_region r) = align_region r"
  using align_region_aligned [of r]
  by (simp add: align_region_def [of "align_region r"] buf_actual_depth_def)

text \<open>
  Claim C7. For a region within the bounds of a panel, \<^verbatim>\<open>align_region\<close> is idempotent,
  its result has a left edge and a width that are multiples of 8, contains the region
  (every pixel of the region, and the region's left and right edges lie between its
  own), and has the top and the height of the region.
\<close>

theorem align_region_props:
  assumes "panel_ok P" and "within_panel P r"
  shows "align_region (align_region r) = align_region r \<and>
         left (align_region r) mod 8 = 0 \<and>
         width (align_region r) mod 8 = 0 \<and>
         (\<forall>x y. contains r x y \<longrightarrow> contains (align_region r) x y) \<and>
         unat (left (align_region r)) \<le> unat (left r) \<and>
         unat (left r) + unat (width r)
           \<le> unat (left (align_region r)) + unat (width (align_region r)) \<and>
         top_y (align_region r) = top_y r \<and>
         height (align_region r) = height r"
proof -
  let ?a = "align_region r"
  have W: "unat (epd_width P) + 8 \<le> 4294967296" "unat (epd_width P) mod 8 = 0"
    using assms(1) panel_ok_width by (auto simp: panel_ok_def)
  have lw: "unat (left r) + unat (width r) \<le> unat (epd_width P)"
    using assms(2) by (simp add: within_panel_def)
  have l: "unat (left ?a) = 8 * (unat (left r) div 8)"
    by (rule align_region_unat_left)
  have w: "unat (width ?a) = 8 * ((unat (left r) mod 8 + unat (width r) + 7) div 8)"
    using lw W by (intro align_region_unat_width) linarith
  have le: "unat (left ?a) \<le> unat (left r)"
    unfolding l by simp
  have ge: "unat (left r) + unat (width r) \<le> unat (left ?a) + unat (width ?a)"
    unfolding l w by (rule round_cover)
  have up: "unat (left ?a) + unat (width ?a) \<le> unat (epd_width P)"
    unfolding l w using W(2) lw by (rule round_inside)
  have sum_a: "unat (left ?a + width ?a) = unat (left ?a) + unat (width ?a)"
    using up W(1) by (intro unat_add_coord) linarith
  have sum_r: "unat (left r + width r) = unat (left r) + unat (width r)"
    using lw W(1) by (intro unat_add_coord) linarith
  have cont: "contains ?a x y" if "contains r x y" for x y
    using that le ge
    by (simp add: contains_def align_region_fields word_le_nat_alt word_less_nat_alt sum_a sum_r)
  show ?thesis
    using align_region_aligned [of r] le ge cont
    by (simp add: align_region_idem align_region_fields word_mod_8 and_7_eq_0)
qed

theorem align_region_props_witness:
  "panel_ok small_panel \<and>
   within_panel small_panel \<lparr>top_y = 0, left = 7, width = 3, height = 2\<rparr> \<and>
   align_region \<lparr>top_y = 0, left = 7, width = 3, height = 2\<rparr>
     = \<lparr>top_y = 0, left = 0, width = 16, height = 2\<rparr> \<and>
   align_region (align_region \<lparr>top_y = 0, left = 7, width = 3, height = 2\<rparr>)
     = align_region \<lparr>top_y = 0, left = 7, width = 3, height = 2\<rparr>"
proof -
  have ok: "panel_ok small_panel"
    by (simp add: panel_ok_def small_panel_def buf_depth_def)
  have inside: "within_panel small_panel \<lparr>top_y = 0, left = 7, width = 3, height = 2\<rparr>"
    by (simp add: within_panel_def small_panel_def)
  have "align_region \<lparr>top_y = 0, left = 7, width = 3, height = 2\<rparr>
          = \<lparr>top_y = 0, left = 0, width = 16, height = 2\<rparr>"
    by (simp add: align_region_def buf_actual_depth_def)
  with ok inside align_region_props [OF ok inside] show ?thesis
    by simp
qed

text \<open>
  Claim C6, as amended. Applying the region transform of \<^verbatim>\<open>push_update\<close> twice gives
  the region moved by the difference of the panel's height and width: the width and
  the height are the original ones, \<open>epd_height - epd_width\<close> is added to the top and
  \<open>epd_width - epd_height\<close> to the left (32-bit arithmetic). The result is the original
  region exactly when the panel is as wide as it is high.
\<close>

theorem transform_region_twice:
  "transform_region P (transform_region P r) =
     r\<lparr>top_y := top_y r + (epd_height P - epd_width P),
       left := left r + (epd_width P - epd_height P)\<rparr>
   \<and> (transform_region P (transform_region P r) = r \<longleftrightarrow> epd_width P = epd_height P)"
  by (cases r) (auto simp: transform_region_def)

text \<open>
  The claim as it was stated fails on a panel of 1872 by 1404 pixels for the region of
  8 by 8 pixels at the origin, which lies inside the panel: the second application
  gives a region at left 468 whose top has wrapped around.
\<close>

theorem transform_region_not_involution:
  "within_panel
     \<lparr>epd_width = 1872, epd_height = 1404, buf_stride = 1040, buf_height = 1408,
      margin_top = 3, margin_left = 26\<rparr>
     \<lparr>top_y = 0, left = 0, width = 8, height = 8\<rparr>
   \<and> transform_region
       \<lparr>epd_width = 1872, epd_height = 1404, buf_stride = 1040, buf_height = 1408,
        margin_top = 3, margin_left = 26\<rparr>
       (transform_region
          \<lparr>epd_width = 1872, epd_height = 1404, buf_stride = 1040, buf_height = 1408,
           margin_top = 3, margin_left = 26\<rparr>
          \<lparr>top_y = 0, left = 0, width = 8, height = 8\<rparr>)
     = \<lparr>top_y = 4294966828, left = 468, width = 8, height = 8\<rparr>
   \<and> \<lparr>top_y = 4294966828, left = 468, width = 8, height = 8\<rparr>
       \<noteq> \<lparr>top_y = 0, left = 0, width = 8, height = (8::coord)\<rparr>"
  by (simp add: within_panel_def transform_region_def)

section \<open>The temperature sensor and the vsync thread\<close>

text \<open>
  Claim C9. \<^verbatim>\<open>update_temperature\<close> asks \<^verbatim>\<open>read\<close> for the 12 bytes of its buffer, and
  for every value \<^verbatim>\<open>read\<close> returns the index of the terminating store is below 12:
  it is the value itself when that is below 12 and 11 otherwise. So the store is
  inside the buffer and the function never leaves it.
\<close>

theorem update_temperature_store_in_bounds:
  fixes size' :: "'w::len word"
  assumes "sensor_read sizeof_buffer buffer0 = (size', buffer1)"
    and "length buffer1 = sizeof_buffer"
  shows "sizeof_buffer = 12
    \<and> terminator_index size' < sizeof_buffer
    \<and> terminator_index size' = (if unat size' < 12 then unat size' else 11)
    \<and> store_char buffer1 (terminator_index size') 0 = Inr (buffer1[terminator_index size' := 0])
    \<and> update_temperature stoi due seek_ok sensor_read buffer0 d \<noteq> Inl Store_out_of_bounds"
proof -
  have i: "terminator_index size' < sizeof_buffer"
    by (simp add: terminator_index_def sizeof_buffer_def)
  then have s: "store_char buffer1 (terminator_index size') 0 = Inr (buffer1[terminator_index size' := 0])"
    using assms(2) by (simp add: store_char_def)
  have "update_temperature stoi due seek_ok sensor_read buffer0 d \<noteq> Inl Store_out_of_bounds"
    by (simp add: update_temperature_def assms(1) s split: option.split)
  with i s show ?thesis
    by (simp add: terminator_index_def sizeof_buffer_def)
qed

theorem update_temperature_store_witness:
  "terminator_index (12 :: 32 word) = 11 \<and> terminator_index (3 :: 32 word) = 3
   \<and> update_temperature (\<lambda>b. Some 24) True True
        (\<lambda>n b. (12 :: 32 word, replicate 12 50)) (replicate 12 0) small_display
      = Inr (small_display\<lparr>temperature := 24\<rparr>)"
  using update_temperature_store_in_bounds
    [of "\<lambda>n b. (12 :: 32 word, replicate 12 50)" "replicate 12 0" 12 "replicate 12 50"
        "\<lambda>b. Some 24" True True small_display]
  by (simp add: update_temperature_def terminator_index_def sizeof_buffer_def store_char_def)

subsection \<open>The pages the vsync thread copies to\<close>

lemma copies_append: "copies (as @ bs) = copies as @ copies bs"
  by (induction as rule: copies.induct) simp_all

lemma copies_set_power: "set_power ok t c = (x, p) \<Longrightarrow> copies x = []"
  by (auto simp: set_power_def split: if_splits)

lemma pages_mod: "pages P (nf mod 2) m = pages P nf m"
  by (cases m) (simp_all add: mod_2_eq_odd)

lemma pages_append: "pages P nf m @ pages P ((nf + m) mod 2) k = pages P nf (m + k)"
proof (induction m arbitrary: nf)
  case 0
  show ?case by (simp add: pages_mod)
next
  case (Suc m)
  have e: "(nf + Suc m) mod 2 = ((nf + 1) mod 2 + m) mod 2"
    by (simp add: mod_2_eq_odd)
  show ?case
    by (simp only: e pages.simps add_Suc append_Cons Suc.IH)
qed

lemma pages_nth: "n < m \<Longrightarrow> pages P nf m ! n = ((nf + n + 1) mod 2) * buf_frame P"
proof (induction m arbitrary: nf n)
  case 0
  then show ?case by simp
next
  case (Suc m)
  show ?case
  proof (cases n)
    case 0
    then show ?thesis by simp
  next
    case (Suc j)
    have e: "(nf + Suc j + 1) mod 2 = ((nf + 1) mod 2 + j + 1) mod 2"
      by (simp add: mod_2_eq_odd)
    have "j < m" using Suc.prems Suc by simp
    from Suc.IH [OF this, of "(nf + 1) mod 2"] show ?thesis
      by (simp only: Suc e pages.simps nth_Cons_Suc)
  qed
qed

lemma length_pages: "length (pages P nf m) = m"
  by (induction m arbitrary: nf) simp_all

lemma vsync_frames_copies:
  "vsync_frames P ok k frs (nf, ff) = (acts, (nf', ff'), cont)
   \<Longrightarrow> \<exists>m. copies acts = pages P nf m \<and> nf' mod 2 = (nf + m) mod 2"
proof (induction frs arbitrary: k nf ff acts nf' ff' cont)
  case Nil
  then show ?case
    by (intro exI [of _ 0]) simp
next
  case (Cons fr frs)
  show ?case
  proof (cases "ok k")
    case False
    with Cons.prems show ?thesis
      by (intro exI [of _ 1]) (auto simp: Let_def)
  next
    case True
    obtain acts' where a: "vsync_frames P ok (k + 1) frs ((nf + 1) mod 2, False) = (acts', (nf', ff'), cont)"
      and b: "acts = [Memcpy ((nf + 1) mod 2 * buf_frame P) fr, Flip ff ((nf + 1) mod 2 * buf_height P)] @ acts'"
      using Cons.prems True by (auto simp: Let_def split: prod.splits)
    from Cons.IH [OF a] obtain m where m: "copies acts' = pages P ((nf + 1) mod 2) m"
      "nf' mod 2 = ((nf + 1) mod 2 + m) mod 2" by blast
    have "nf' mod 2 = (nf + Suc m) mod 2"
      using m(2) by (simp add: mod_2_eq_odd)
    with m(1) b show ?thesis
      by (intro exI [of _ "Suc m"]) simp
  qed
qed

lemma vsync_round_stops:
  assumes "vsync_round P e s = (acts, s', cont)"
   and off: "set_power (blank_off_ok e) False (power_state s) = (x1, p1)"
   and on: "set_power (blank_on_ok e) True (if timed_out e then p1 else power_state s) = (x2, p2)"
   and cx1: "copies x1 = []" and cx2: "copies x2 = []"
   and "stopping_head e \<or> stopping_wait e \<or> \<not> temperature_ok e"
  shows "(copies acts = [] \<and> next_frame s' = next_frame s)"
  using assms
  apply (cases "timed_out e")
   apply (simp_all add: vsync_round_def copies_append split: if_splits)
  apply (auto simp: copies_append)
  done

lemma vsync_round_goes_on:
  assumes "vsync_round P e s = (acts, s', cont)"
   and off: "set_power (blank_off_ok e) False (power_state s) = (x1, p1)"
   and on: "set_power (blank_on_ok e) True (if timed_out e then p1 else power_state s) = (x2, p2)"
   and cx1: "copies x1 = []" and cx2: "copies x2 = []"
   and "\<not> (stopping_head e \<or> stopping_wait e \<or> \<not> temperature_ok e)"
   and f: "vsync_frames P (flip_ok e) 0 (vsync_buffer e) (next_frame s, first_frame s) = (a3, (nf, ff), c)"
  shows "copies acts = copies a3 \<and> next_frame s' = nf"
  using assms
  apply (cases "timed_out e")
   apply (simp_all add: vsync_round_def copies_append split: if_splits)
  apply (auto simp: copies_append)
  done

lemma vsync_round_copies:
  assumes "vsync_round P e s = (acts, s', cont)"
  shows "\<exists>m. copies acts = pages P (next_frame s) m \<and> next_frame s' mod 2 = (next_frame s + m) mod 2"
proof -
  obtain a3 nf ff c where f: "vsync_frames P (flip_ok e) 0 (vsync_buffer e) (next_frame s, first_frame s) = (a3, (nf, ff), c)"
    by (cases "vsync_frames P (flip_ok e) 0 (vsync_buffer e) (next_frame s, first_frame s)") auto
  from vsync_frames_copies [OF f] obtain m where m: "copies a3 = pages P (next_frame s) m"
    "nf mod 2 = (next_frame s + m) mod 2" by blast
  obtain x1 p1 where off: "set_power (blank_off_ok e) False (power_state s) = (x1, p1)"
    by (cases "set_power (blank_off_ok e) False (power_state s)") auto
  have cx1: "copies x1 = []"
    using off by (rule copies_set_power)
  obtain x2 p2 where on: "set_power (blank_on_ok e) True (if timed_out e then p1 else power_state s) = (x2, p2)"
    by (cases "set_power (blank_on_ok e) True (if timed_out e then p1 else power_state s)") auto
  have cx2: "copies x2 = []"
    using on by (rule copies_set_power)
  show ?thesis
  proof (cases "stopping_head e \<or> stopping_wait e \<or> \<not> temperature_ok e")
    case True
    from vsync_round_stops [OF assms off on cx1 cx2 True]
    show ?thesis by (intro exI [of _ 0]) simp
  next
    case False
    from vsync_round_goes_on [OF assms off on cx1 cx2 False f] m
    show ?thesis by (intro exI [of _ m]) simp
  qed
qed

lemma run_vsync_thread_copies:
  "\<exists>m. copies (run_vsync_thread P es s) = pages P (next_frame s) m"
proof (induction es arbitrary: s)
  case Nil
  show ?case by (intro exI [of _ 0]) simp
next
  case (Cons e es)
  obtain acts s' cont where r: "vsync_round P e s = (acts, s', cont)"
    by (cases "vsync_round P e s") auto
  from vsync_round_copies [OF r] obtain m where m: "copies acts = pages P (next_frame s) m"
    "next_frame s' mod 2 = (next_frame s + m) mod 2" by blast
  show ?case
  proof (cases cont)
    case False
    with r m(1) show ?thesis by (intro exI [of _ m]) simp
  next
    case True
    from Cons.IH [of s'] obtain k where k: "copies (run_vsync_thread P es s') = pages P (next_frame s') k"
      by blast
    have "pages P (next_frame s') k = pages P ((next_frame s + m) mod 2) k"
      using m(2) pages_mod [of P "next_frame s'" k] pages_mod [of P "(next_frame s + m) mod 2" k]
      by simp
    with r m(1) k True show ?thesis
      by (intro exI [of _ "m + k"]) (simp add: copies_append pages_append)
  qed
qed

text \<open>
  Claim C10. Counting the frames the vsync thread copies from its start, frame \<open>n\<close>
  goes to the byte offset \<open>((n + 1) mod 2) * buf_frame\<close> of the framebuffer, that is to
  page \<open>(n + 1) mod 2\<close>: the first one to page 1.
\<close>

theorem vsync_page_alternation:
  "\<forall>n < length (copies (run_vsync_thread P es (vsync_start on))).
     copies (run_vsync_thread P es (vsync_start on)) ! n = ((n + 1) mod 2) * buf_frame P"
proof -
  obtain m where "copies (run_vsync_thread P es (vsync_start on)) = pages P 0 m"
    using run_vsync_thread_copies [of P es "vsync_start on"] by (auto simp: vsync_start_def)
  then show ?thesis
    by (simp add: pages_nth length_pages)
qed


theorem vsync_page_alternation_witness:
  "copies (run_vsync_thread small_panel
      [\<lparr>stopping_head = False, timed_out = False, stopping_wait = False,
        blank_off_ok = True, blank_on_ok = True, temperature_ok = True,
        vsync_buffer = [small_null_frame, small_null_frame, small_null_frame],
        flip_ok = (\<lambda>k. True)\<rparr>]
      (vsync_start True)) = [48, 0, 48]"
  using vsync_page_alternation
    [of small_panel
      "[\<lparr>stopping_head = False, timed_out = False, stopping_wait = False,
        blank_off_ok = True, blank_on_ok = True, temperature_ok = True,
        vsync_buffer = [small_null_frame, small_null_frame, small_null_frame],
        flip_ok = (\<lambda>k. True)\<rparr>]" True]
  by (simp add: vsync_round_def vsync_start_def set_power_def buf_frame_def small_panel_def)

section \<open>\<^verbatim>\<open>push_update\<close> and \<^verbatim>\<open>merge_updates\<close>\<close>

lemma trans_loop_map:
  "(\<And>k. k \<in> set ks \<Longrightarrow> trans_pixel rgn buf k = Some (g k))
   \<Longrightarrow> trans_loop rgn buf ks = Some (map g ks)"
proof (induction ks)
  case Nil
  show ?case by simp
next
  case (Cons k ks)
  have "trans_pixel rgn buf k = Some (g k)"
    by (rule Cons.prems) simp
  moreover have "trans_loop rgn buf ks = Some (map g ks)"
    by (rule Cons.IH) (simp add: Cons.prems)
  ultimately show ?case by simp
qed

lemma trans_index_bound:
  assumes "k < w * h"
  shows "(h - k mod h - 1) * w + (w - k div h - 1) < w * (h::nat)"
proof -
  have h: "0 < h"
    using assms by (cases h) simp_all
  have w: "0 < w"
    using assms by (cases w) simp_all
  have "k div h < w"
    using assms by (rule less_mult_imp_div_less)
  then have j: "w - k div h - 1 < w"
    using w by simp
  have "(h - k mod h - 1) \<le> h - 1"
    by simp
  then have "(h - k mod h - 1) * w \<le> (h - 1) * w"
    by (rule mult_le_mono1)
  then have "(h - k mod h - 1) * w + (w - k div h - 1) < (h - 1) * w + w"
    using j by (rule add_le_less_mono)
  also have "\<dots> = w * h"
    using h by (cases h) simp_all
  finally show ?thesis .
qed

lemma trans_pixel_Some:
  assumes "k < length buf" "length buf = unat (width rgn) * unat (height rgn)"
  shows "trans_pixel rgn buf k =
           Some (buf ! ((unat (height rgn) - k mod unat (height rgn) - 1) * unat (width rgn)
                        + (unat (width rgn) - k div unat (height rgn) - 1)) AND 31)"
proof -
  let ?h = "unat (height rgn)" and ?w = "unat (width rgn)"
  have k: "k < ?w * ?h"
    using assms by simp
  then have h: "0 < ?h"
    by (cases ?h) simp_all
  have d: "k div ?h < ?w"
    using k by (rule less_mult_imp_div_less)
  from trans_index_bound [OF k] d h assms(2) show ?thesis
    by (simp add: trans_pixel_def Let_def intensity_values_def)
qed

lemma unat_sub_wrap:
  "unat ((a::coord) - b) = (if unat b \<le> unat a then unat a - unat b else unat a + 4294967296 - unat b)"
  using unat_sub_if' [of a b] by simp

text \<open>
  Claim C4, as amended. For a region whose sums \<open>left + width\<close> and \<open>top + height\<close> and
  whose area do not wrap around in 32 bits, \<^verbatim>\<open>push_update\<close> returns false and changes
  nothing when the buffer is not of the region's size, when the transformed region
  ends beyond the right or the bottom edge of the panel, and when it starts at or
  beyond one of them (an empty region on the far edge); otherwise it returns true and
  appends one update to the queue: the transformed region, the transposed and masked
  buffer and the next id.
\<close>

theorem push_update_result:
  assumes "unat (left rgn) + unat (width rgn) < 4294967296"
    and "unat (top_y rgn) + unat (height rgn) < 4294967296"
    and "unat (width rgn) * unat (height rgn) < 4294967296"
  shows "push_update P m imm rgn buf d =
     (if length buf \<noteq> unat (width rgn) * unat (height rgn)
         \<or> \<not> within_panel P (transform_region P rgn)
         \<or> left (transform_region P rgn) \<ge> epd_width P
         \<or> top_y (transform_region P rgn) \<ge> epd_height P
      then Some (False, d)
      else Some (True,
        d\<lparr>pending_updates := pending_updates d @
             [\<lparr>id_u = [next_update_id d], mode = m, immediate = imm,
               region = transform_region P rgn,
               buffer = map (\<lambda>k. buf ! ((unat (height rgn) - k mod unat (height rgn) - 1)
                                          * unat (width rgn)
                                        + (unat (width rgn) - k div unat (height rgn) - 1))
                                  AND 31) [0 ..< length buf]\<rparr>],
          next_update_id := next_update_id d + 1\<rparr>))"
proof (cases "length buf = unat (width rgn) * unat (height rgn)")
  case False
  then show ?thesis
    using assms(3) by (simp add: push_update_def unat_word_ariths)
next
  case True
  let ?r = "transform_region P rgn"
  let ?g = "\<lambda>k. buf ! ((unat (height rgn) - k mod unat (height rgn) - 1) * unat (width rgn)
                   + (unat (width rgn) - k div unat (height rgn) - 1)) AND 31"
  have size: "length buf = unat (width rgn * height rgn)"
    using True assms(3) by (simp add: unat_word_ariths)
  have loop: "trans_loop rgn buf [0 ..< length buf] = Some (map ?g [0 ..< length buf])"
    by (rule trans_loop_map) (simp add: trans_pixel_Some True)
  have lw: "unat (left rgn + width rgn) = unat (left rgn) + unat (width rgn)"
    and th: "unat (top_y rgn + height rgn) = unat (top_y rgn) + unat (height rgn)"
    using assms(1,2) by (simp_all add: unat_add_coord)
  have top2: "top_y ?r = epd_height P - (left rgn + width rgn)"
    and left2: "left ?r = epd_width P - (top_y rgn + height rgn)"
    by (simp_all add: transform_region_def)
  have flds: "width ?r = height rgn" "height ?r = width rgn"
    by (simp_all add: transform_region_def)
  have B: "unat (epd_width P) < 4294967296" "unat (epd_height P) < 4294967296"
    "unat (left rgn) < 4294967296" "unat (top_y rgn) < 4294967296"
    by (rule unat_coord_bound)+
  have ut: "unat (top_y ?r) = (if unat (left rgn) + unat (width rgn) \<le> unat (epd_height P)
      then unat (epd_height P) - (unat (left rgn) + unat (width rgn))
      else unat (epd_height P) + 4294967296 - (unat (left rgn) + unat (width rgn)))"
    by (simp add: top2 unat_sub_wrap lw)
  have ul: "unat (left ?r) = (if unat (top_y rgn) + unat (height rgn) \<le> unat (epd_width P)
      then unat (epd_width P) - (unat (top_y rgn) + unat (height rgn))
      else unat (epd_width P) + 4294967296 - (unat (top_y rgn) + unat (height rgn)))"
    by (simp add: left2 unat_sub_wrap th)
  have within: "within_panel P ?r \<longleftrightarrow>
      unat (left rgn) + unat (width rgn) \<le> unat (epd_height P) \<and>
      unat (top_y rgn) + unat (height rgn) \<le> unat (epd_width P)"
    using B assms(1,2) by (auto simp: within_panel_def ut ul flds)
  have sums: "within_panel P ?r \<Longrightarrow>
      unat (left ?r + width ?r) = unat (left ?r) + unat (width ?r) \<and>
      unat (top_y ?r + height ?r) = unat (top_y ?r) + unat (height ?r)"
    using B by (auto simp: within_panel_def intro!: unat_add_coord)
  have check: "(left ?r \<ge> epd_width P \<or> top_y ?r \<ge> epd_height P
       \<or> left ?r + width ?r > epd_width P \<or> top_y ?r + height ?r > epd_height P)
     \<longleftrightarrow> (\<not> within_panel P ?r \<or> left ?r \<ge> epd_width P \<or> top_y ?r \<ge> epd_height P)"
  proof (cases "within_panel P ?r")
    case True
    with sums show ?thesis
      by (auto simp: word_le_nat_alt word_less_nat_alt within_panel_def)
  next
    case False
    then have "unat (epd_height P) < unat (left rgn) + unat (width rgn)
        \<or> unat (epd_width P) < unat (top_y rgn) + unat (height rgn)"
      using within by auto
    then have "left ?r \<ge> epd_width P \<or> top_y ?r \<ge> epd_height P"
      using assms(1,2) B by (auto simp: word_le_nat_alt ut ul)
    with False show ?thesis by blast
  qed
  have "push_update P m imm rgn buf d =
      (if left ?r \<ge> epd_width P \<or> top_y ?r \<ge> epd_height P
          \<or> left ?r + width ?r > epd_width P \<or> top_y ?r + height ?r > epd_height P
       then Some (False, d)
       else Some (True,
        d\<lparr>pending_updates := pending_updates d @
             [\<lparr>id_u = [next_update_id d], mode = m, immediate = imm,
               region = ?r, buffer = map ?g [0 ..< length buf]\<rparr>],
          next_update_id := next_update_id d + 1\<rparr>))"
    using size loop by (simp add: push_update_def Let_def)
  also have "\<dots> =
      (if \<not> within_panel P ?r \<or> left ?r \<ge> epd_width P \<or> top_y ?r \<ge> epd_height P
       then Some (False, d)
       else Some (True,
        d\<lparr>pending_updates := pending_updates d @
             [\<lparr>id_u = [next_update_id d], mode = m, immediate = imm,
               region = ?r, buffer = map ?g [0 ..< length buf]\<rparr>],
          next_update_id := next_update_id d + 1\<rparr>))"
    by (simp only: check)
  finally show ?thesis
    using True by simp
qed


theorem push_update_result_witness:
  "push_update small_panel 0 False \<lparr>top_y = 0, left = 0, width = 2, height = 3\<rparr>
     [1, 2, 3, 4, 5, 38] small_display
   = Some (True,
       small_display\<lparr>pending_updates :=
           [\<lparr>id_u = [1], mode = 0, immediate = False,
             region = \<lparr>top_y = 0, left = 13, width = 3, height = 2\<rparr>,
             buffer = [6, 4, 2, 5, 3, 1]\<rparr>],
         next_update_id := 2\<rparr>)"
  using push_update_result
    [of "\<lparr>top_y = 0, left = 0, width = 2, height = 3\<rparr>" small_panel 0 False
        "[1, 2, 3, 4, 5, 38]" small_display]
  by (simp add: within_panel_def transform_region_def small_panel_def small_display_def
        upt_conv_Cons)

text \<open>
  The claim as it was stated fails for the empty region at the origin: the buffer is
  of the region's size and the transformed region lies within the bounds of the
  panel, and \<^verbatim>\<open>push_update\<close> returns false.
\<close>

theorem push_update_rejects_empty_corner:
  "length ([] :: Intensity list)
     = unat (width \<lparr>top_y = 0, left = 0, width = 0, height = 0\<rparr>
             * height \<lparr>top_y = 0, left = 0, width = 0, height = 0\<rparr>)
   \<and> within_panel small_panel
         (transform_region small_panel \<lparr>top_y = 0, left = 0, width = 0, height = 0\<rparr>)
   \<and> push_update small_panel 0 False \<lparr>top_y = 0, left = 0, width = 0, height = 0\<rparr> []
         small_display
       = Some (False, small_display)"
  by (simp add: push_update_def within_panel_def transform_region_def small_panel_def)


text \<open>
  Claim C1 does not hold of the code. The test that \<^verbatim>\<open>merge_updates\<close> makes for an
  immediate update reads only the first pixel of each row of the peer's region, and
  compares it with the first value of the peer's buffer: on a panel of two pixels, when
  pixel 1 is at step 1 of its transition to 5 and the peer asks for 7 there, the
  peer is merged and the target of the pixel becomes 7.
\<close>

theorem merge_updates_changes_target_in_transition:
  "waveform_steps
     \<lparr>pending_updates =
        [\<lparr>id_u = [2], mode = 0, immediate = True,
          region = \<lparr>top_y = 0, left = 0, width = 2, height = 1\<rparr>, buffer = [0, 7]\<rparr>],
      next_update_id = 3, current_intensity = [0, 0], next_intensity = [0, 5],
      waveform_steps = [0, 1], temperature = 24\<rparr> ! 1 = 1
   \<and> merge_updates
       \<lparr>epd_width = 2, epd_height = 1, buf_stride = 8, buf_height = 2,
        margin_top = 1, margin_left = 1\<rparr>
       \<lparr>id_u = [1], mode = 0, immediate = True,
        region = \<lparr>top_y = 0, left = 0, width = 2, height = 1\<rparr>, buffer = [0, 5]\<rparr>
       \<lparr>pending_updates =
          [\<lparr>id_u = [2], mode = 0, immediate = True,
            region = \<lparr>top_y = 0, left = 0, width = 2, height = 1\<rparr>, buffer = [0, 7]\<rparr>],
        next_update_id = 3, current_intensity = [0, 0], next_intensity = [0, 5],
        waveform_steps = [0, 1], temperature = 24\<rparr>
     = Some
        (\<lparr>id_u = [1, 2], mode = 0, immediate = True,
          region = \<lparr>top_y = 0, left = 0, width = 2, height = 1\<rparr>, buffer = [0, 5]\<rparr>,
         \<lparr>pending_updates = [],
          next_update_id = 3, current_intensity = [0, 0], next_intensity = [0, 7],
          waveform_steps = [0, 1], temperature = 24\<rparr>)"
  by (simp add: merge_updates_def merge_conflict_def apply_update_def extend_region_def
        upt_conv_Cons)

section \<open>The loops of the generators without their cursors\<close>

declare walk_groups.simps [simp del] grp_run.simps [simp del]

lemma unat_word_of_nat_coord: "x < 4294967296 \<Longrightarrow> unat (word_of_nat x :: coord) = x"
  by (simp add: unat_of_nat)

lemma contains_inside:
  assumes "unat (top_y r) \<le> y" "y < unat (top_y r) + unat (height r)"
    and "unat (left r) + unat (width r) < 4294967296"
    and "unat (top_y r) + unat (height r) < 4294967296"
    and "x < 4294967296"
  shows "contains r (word_of_nat x) (word_of_nat y) \<longleftrightarrow> inside r x"
proof -
  have y: "unat (word_of_nat y :: coord) = y"
    using assms(2,4) by (intro unat_word_of_nat_coord) simp
  have x: "unat (word_of_nat x :: coord) = x"
    using assms(5) by (rule unat_word_of_nat_coord)
  show ?thesis
    using assms(1,2)
    by (simp add: contains_def inside_def word_le_nat_alt word_less_nat_alt x y
          unat_add_coord [OF assms(3)] unat_add_coord [OF assms(4)])
qed

lemma clamp_Suc: "clamp r (Suc x) = (if inside r x then Suc (clamp r x) else clamp r x)"
  by (auto simp: clamp_def inside_def)

lemma clamp_inside: "inside r x \<Longrightarrow> clamp r x = x"
  by (auto simp: clamp_def inside_def)

lemma walk_pixels_eq:
  assumes "unat (top_y r) \<le> y" "y < unat (top_y r) + unat (height r)"
    and "unat (left r) + unat (width r) < 4294967296"
    and "unat (top_y r) + unat (height r) < 4294967296"
    and "x1 \<le> 4294967296" and "x0 \<le> x1"
  shows "walk_pixels f r y [x0 ..< x1] (ph, y * W + clamp r x0, s) =
           (case pix_run f r W y [x0 ..< x1] s of
              None \<Rightarrow> None
            | Some (cs, s') \<Rightarrow> Some (pack ph cs, y * W + clamp r x1, s'))"
  using assms(5,6)
proof (induction "x1 - x0" arbitrary: x0 ph s)
  case 0
  then show ?case by simp
next
  case (Suc n)
  then have lt: "x0 < x1" and n: "n = x1 - Suc x0" and le: "Suc x0 \<le> x1"
    by simp_all
  have c: "contains r (word_of_nat x0) (word_of_nat y) \<longleftrightarrow> inside r x0"
    using assms(1-4) lt Suc.prems(1) by (intro contains_inside) simp_all
  note IH = Suc.hyps(1) [OF n Suc.prems(1) le]
  show ?case
  proof (cases "inside r x0")
    case True
    show ?thesis
    proof (cases "f (y * W + x0) x0 y s")
      case None
      with True c lt show ?thesis
        by (simp add: upt_conv_Cons clamp_inside)
    next
      case (Some a)
      obtain c' s' where a: "a = (c', s')" by (cases a)
      have "y * W + clamp r x0 + 1 = y * W + clamp r (Suc x0)"
        using True by (simp add: clamp_Suc)
      with True c lt Some a IH [of "push_bit 2 ph OR ucast c'" s'] show ?thesis
        by (simp add: upt_conv_Cons clamp_inside split: option.split)
    qed
  next
    case False
    then have "clamp r (Suc x0) = clamp r x0"
      by (simp add: clamp_Suc)
    with False c lt IH [of "push_bit 2 ph" s] show ?thesis
      by (simp add: upt_conv_Cons split: option.split)
  qed
qed

lemma walk_groups_eq:
  assumes "unat (top_y r) \<le> y" "y < unat (top_y r) + unat (height r)"
    and "unat (left r) + unat (width r) < 4294967296"
    and "unat (top_y r) + unat (height r) < 4294967296"
    and "sx + 8 * n + 8 \<le> 4294967296"
  shows "walk_groups f r y sx (sx + 8 * n) (fr, data, y * W + clamp r sx, s) =
           (case grp_run f r W y sx (sx + 8 * n) (fr, data, s) of
              None \<Rightarrow> None
            | Some (fr', data', s') \<Rightarrow> Some (fr', data', y * W + clamp r (sx + 8 * n), s'))"
  using assms(5)
proof (induction n arbitrary: sx fr data s)
  case 0
  show ?case
    by (simp add: walk_groups.simps [of f r y sx sx] grp_run.simps [of f r W y sx sx])
next
  case (Suc n)
  have e: "sx + 8 * Suc n = (sx + 8) + 8 * n"
    by simp
  have b: "sx + 8 + 8 * n + 8 \<le> 4294967296"
    using Suc.prems by simp
  have px: "walk_pixels f r y [sx ..< sx + 8] (0, y * W + clamp r sx, s) =
           (case pix_run f r W y [sx ..< sx + 8] s of
              None \<Rightarrow> None
            | Some (cs, s') \<Rightarrow> Some (pack 0 cs, y * W + clamp r (sx + 8), s'))"
    using Suc.prems by (intro walk_pixels_eq assms(1-4)) simp_all
  have g: "sx + 8 < 4294967296"
    using Suc.prems by simp
  show ?case
    unfolding e
    by (subst walk_groups.simps, subst grp_run.simps)
       (simp add: px g Suc.IH [OF b] split: option.split)
qed

lemma walk_rows_eq:
  assumes "unat (left r) + unat (width r) < 4294967296"
    and "unat (top_y r) + unat (height r) < 4294967296"
    and "sx0 + 8 * n + 8 \<le> 4294967296"
    and "sx0 \<le> unat (left r)" and "unat (left r) + unat (width r) \<le> sx0 + 8 * n"
    and "unat (width r) \<le> W"
    and "unat (top_y r) \<le> y0" and "y0 \<le> y1" and "y1 \<le> unat (top_y r) + unat (height r)"
  shows "walk_rows f r sx0 (sx0 + 8 * n) row_skip (W - unat (width r)) [y0 ..< y1]
           (fr, data, y0 * W + unat (left r), s) =
         (case rows_run f r W sx0 (sx0 + 8 * n) row_skip [y0 ..< y1] (fr, data, s) of
            None \<Rightarrow> None
          | Some (fr', data', s') \<Rightarrow> Some (fr', data', y1 * W + unat (left r), s'))"
  using assms(7,8)
proof (induction "y1 - y0" arbitrary: y0 fr data s)
  case 0
  then show ?case by simp
next
  case (Suc k)
  then have lt: "y0 < y1" and k: "k = y1 - Suc y0" and le: "Suc y0 \<le> y1"
    by simp_all
  have c0: "clamp r sx0 = unat (left r)"
    using assms(4) by (simp add: clamp_def)
  have c1: "clamp r (sx0 + 8 * n) = unat (left r) + unat (width r)"
    using assms(5) by (simp add: clamp_def)
  have row: "y0 < unat (top_y r) + unat (height r)"
    using lt assms(9) by simp
  have g: "walk_groups f r y0 sx0 (sx0 + 8 * n) (fr, data, y0 * W + unat (left r), s) =
           (case grp_run f r W y0 sx0 (sx0 + 8 * n) (fr, data, s) of
              None \<Rightarrow> None
            | Some (fr', data', s') \<Rightarrow>
                Some (fr', data', y0 * W + (unat (left r) + unat (width r)), s'))"
    using walk_groups_eq [OF Suc.prems(1) row assms(1,2,3), of f fr data W s]
    unfolding c0 c1 .
  have off: "y0 * W + (unat (left r) + unat (width r)) + (W - unat (width r))
        = Suc y0 * W + unat (left r)"
    using assms(6) by simp
  have IH: "walk_rows f r sx0 (sx0 + 8 * n) row_skip (W - unat (width r)) [Suc y0 ..< y1]
           (fr', data', off', s') =
         (case rows_run f r W sx0 (sx0 + 8 * n) row_skip [Suc y0 ..< y1] (fr', data', s') of
            None \<Rightarrow> None
          | Some (fr'', data'', s'') \<Rightarrow> Some (fr'', data'', y1 * W + unat (left r), s''))"
    if "off' = Suc y0 * W + unat (left r)" for fr' data' s' off'
    unfolding that using Suc.prems(1) by (intro Suc.hyps(1) [OF k _ le]) simp
  show ?case
    using lt by (simp add: upt_conv_Cons g off IH split: option.split)
qed

lemma align_region_geometry:
  assumes "panel_ok P" and "within_panel P r"
  defines "l \<equiv> unat (left r)" and "w \<equiv> unat (width r)"
  defines "n \<equiv> (l mod 8 + w + 7) div 8"
  shows "unat (left (align_region r)) = 8 * (l div 8)"
    and "unat (width (align_region r)) = 8 * n"
    and "unat (left (align_region r) + width (align_region r)) = 8 * (l div 8) + 8 * n"
    and "unat (left (align_region r) div buf_actual_depth) = l div 8"
    and "unat (width (align_region r) div buf_actual_depth) = n"
    and "8 * (l div 8) + 8 * n \<le> unat (epd_width P)"
    and "l + w \<le> 8 * (l div 8) + 8 * n"
proof -
  have W: "unat (epd_width P) + 8 \<le> 4294967296" "unat (epd_width P) mod 8 = 0"
    using assms(1) panel_ok_width by (auto simp: panel_ok_def)
  have lw: "l + w \<le> unat (epd_width P)"
    using assms(2) by (simp add: within_panel_def l_def w_def)
  show a: "unat (left (align_region r)) = 8 * (l div 8)"
    unfolding l_def by (rule align_region_unat_left)
  show b: "unat (width (align_region r)) = 8 * n"
    unfolding n_def l_def w_def using lw W(1)
    by (intro align_region_unat_width) (simp add: l_def w_def)
  show up: "8 * (l div 8) + 8 * n \<le> unat (epd_width P)"
    unfolding n_def using W(2) lw by (rule round_inside)
  show "unat (left (align_region r) + width (align_region r)) = 8 * (l div 8) + 8 * n"
    using up W(1) by (simp add: unat_add_coord a b)
  show "unat (left (align_region r) div buf_actual_depth) = l div 8"
    by (simp add: buf_actual_depth_def unat_div a)
  show "unat (width (align_region r) div buf_actual_depth) = n"
    by (simp add: buf_actual_depth_def unat_div b)
  show "l + w \<le> 8 * (l div 8) + 8 * n"
    unfolding n_def by (rule round_cover)
qed

lemma start_offset_eq:
  assumes "panel_ok P" and "within_panel P r" and "0 < unat (height r)"
  shows "unat (top_y r * epd_width P + left r)
           = unat (top_y r) * unat (epd_width P) + unat (left r)"
proof -
  let ?W = "unat (epd_width P)" and ?H = "unat (epd_height P)"
  have t: "unat (top_y r) + 1 \<le> ?H" and l: "unat (left r) \<le> ?W"
    using assms(2,3) by (simp_all add: within_panel_def)
  have "(unat (top_y r) + 1) * ?W \<le> ?H * ?W"
    using t by (rule mult_le_mono1)
  then have "unat (top_y r) * ?W + unat (left r) \<le> ?H * ?W"
    using l by simp
  moreover have "?W * ?H < 4294967296"
    using assms(1) by (simp add: panel_ok_def)
  ultimately have b: "unat (top_y r) * ?W + unat (left r) < 4294967296"
    by (simp add: mult.commute)
  then have "unat (top_y r) * ?W < 4294967296"
    by simp
  then have "unat (top_y r * epd_width P) = unat (top_y r) * ?W"
    by (simp add: unat_word_ariths)
  with b show ?thesis
    by (simp add: unat_add_coord)
qed

lemma walk_eq:
  assumes "panel_ok P" and "within_panel P r"
  shows "walk P f r null_frame s =
     (case rows_run f r (unat (epd_width P))
             (8 * (unat (left r) div 8))
             (8 * (unat (left r) div 8) + 8 * ((unat (left r) mod 8 + unat (width r) + 7) div 8))
             ((buf_stride P - (unat (left r) mod 8 + unat (width r) + 7) div 8 * buf_depth) div 2)
             [unat (top_y r) ..< unat (top_y r) + unat (height r)]
             (null_frame,
              ((margin_top P + unat (top_y r)) * buf_stride P
                + (margin_left P + unat (left r) div 8) * buf_depth) div 2,
              s) of
        None \<Rightarrow> None
      | Some (fr, data, s') \<Rightarrow> Some (fr, s'))"
proof -
  let ?W = "unat (epd_width P)" and ?H = "unat (epd_height P)"
  let ?l = "unat (left r)" and ?w = "unat (width r)"
  let ?t = "unat (top_y r)" and ?h = "unat (height r)"
  let ?n = "(?l mod 8 + ?w + 7) div 8"
  let ?a = "align_region r"
  note geo = align_region_geometry [OF assms]
  have W: "?W + 8 \<le> 4294967296"
    using assms(1) by (rule panel_ok_width)
  have lw: "?l + ?w \<le> ?W" and th: "?t + ?h \<le> ?H"
    using assms(2) by (simp_all add: within_panel_def)
  have H: "?H < 4294967296"
    by (rule unat_coord_bound)
  have rows: "unat (top_y r + height r) = ?t + ?h"
    using th H by (simp add: unat_add_coord)
  have ok: "even (buf_stride P)" "?n * buf_depth \<le> buf_stride P"
  proof -
    show "even (buf_stride P)"
      using assms(1) by (simp add: panel_ok_def)
    have "8 * ?n \<le> ?W"
      using geo(6) by simp
    then have "?n \<le> ?W div 8"
      by simp
    then have "?n * buf_depth \<le> (margin_left P + ?W div 8) * buf_depth"
      by (intro mult_le_mono1) simp
    also have "\<dots> \<le> buf_stride P"
      using assms(1) by (simp add: panel_ok_def)
    finally show "?n * buf_depth \<le> buf_stride P" .
  qed
  have mid: "unat (epd_width P - width r) = ?W - ?w"
    using lw by (intro unat_sub) (simp add: word_le_nat_alt)
  show ?thesis
  proof (cases "?h = 0")
    case True
    then show ?thesis
      using ok by (simp add: walk_def Let_def geo(5) rows align_region_fields)
  next
    case False
    then have so: "unat (top_y r * epd_width P + left r) = ?t * ?W + ?l"
      using assms by (intro start_offset_eq) simp_all
    have "walk_rows f r (8 * (?l div 8)) (8 * (?l div 8) + 8 * ?n) row_skip (?W - ?w)
            [?t ..< ?t + ?h] (null_frame, data, ?t * ?W + ?l, s) =
          (case rows_run f r ?W (8 * (?l div 8)) (8 * (?l div 8) + 8 * ?n) row_skip
                  [?t ..< ?t + ?h] (null_frame, data, s) of
             None \<Rightarrow> None
           | Some (fr', data', s') \<Rightarrow> Some (fr', data', (?t + ?h) * ?W + ?l, s'))"
      for row_skip data
      using lw th H W geo(6,7) by (intro walk_rows_eq) simp_all
    then show ?thesis
      using ok
      by (simp add: walk_def Let_def geo(1,2,3,4,5) rows align_region_fields so mid
            split: option.split)
  qed
qed

section \<open>The frames of \<^verbatim>\<open>generate_batch\<close>\<close>

lemma pix_run_batch:
  assumes "\<And>x. x \<in> set xs \<Longrightarrow> inside r x \<Longrightarrow>
             y * W + x < length prev \<and> y * W + x < length nxt
             \<and> prev ! (y * W + x) < intensity_values \<and> nxt ! (y * W + x) < intensity_values"
  shows "pix_run (batch_pixel M prev nxt) r W y xs () =
           Some (map (batch_lane M prev nxt r W y) xs, ())"
  using assms
proof (induction xs)
  case Nil
  show ?case by simp
next
  case (Cons x xs)
  have IH: "pix_run (batch_pixel M prev nxt) r W y xs () =
           Some (map (batch_lane M prev nxt r W y) xs, ())"
    by (rule Cons.IH) (simp add: Cons.prems)
  show ?case
  proof (cases "inside r x")
    case True
    with Cons.prems [of x]
    have "batch_pixel M prev nxt (y * W + x) x y () =
            Some (phase_code (M (prev ! (y * W + x)) (nxt ! (y * W + x))), ())"
      by (simp add: batch_pixel_def)
    moreover have "batch_lane M prev nxt r W y x =
            phase_code (M (prev ! (y * W + x)) (nxt ! (y * W + x)))"
      using True by (simp add: batch_lane_def)
    ultimately show ?thesis
      using True IH by simp
  next
    case False
    then have "batch_lane M prev nxt r W y x = 0"
      by (simp add: batch_lane_def)
    with False IH show ?thesis
      by simp
  qed
qed

lemma grp_run_batch:
  assumes "\<And>x. inside r x \<Longrightarrow>
             y * W + x < length prev \<and> y * W + x < length nxt
             \<and> prev ! (y * W + x) < intensity_values \<and> nxt ! (y * W + x) < intensity_values"
    and "data + 2 * n \<le> length fr"
  shows "\<exists>fr'. grp_run (batch_pixel M prev nxt) r W y sx (sx + 8 * n) (fr, data, ())
                 = Some (fr', data + 2 * n, ())
           \<and> length fr' = length fr
           \<and> (\<forall>i<n. fr' ! (data + 2 * i)
                 = pack 0 (map (batch_lane M prev nxt r W y) [sx + 8 * i ..< sx + 8 * i + 8]))
           \<and> (\<forall>j<data. fr' ! j = fr ! j)"
  using assms(2)
proof (induction n arbitrary: sx fr data)
  case 0
  show ?case
    by (simp add: grp_run.simps [of _ r W y sx sx])
next
  case (Suc n)
  let ?f = "batch_pixel M prev nxt"
  let ?g = "\<lambda>sx. pack 0 (map (batch_lane M prev nxt r W y) [sx ..< sx + 8])"
  let ?fr1 = "fr[data := ?g sx]"
  have px: "pix_run ?f r W y [sx ..< sx + 8] () =
           Some (map (batch_lane M prev nxt r W y) [sx ..< sx + 8], ())"
    by (rule pix_run_batch) (rule assms(1))
  have d: "data < length fr" and d2: "data + 2 + 2 * n \<le> length ?fr1"
    using Suc.prems by simp_all
  from Suc.IH [OF d2, of "sx + 8"] obtain fr' where
    run: "grp_run ?f r W y (sx + 8) (sx + 8 + 8 * n) (?fr1, data + 2, ())
            = Some (fr', data + 2 + 2 * n, ())"
    and len: "length fr' = length ?fr1"
    and words: "\<forall>i<n. fr' ! (data + 2 + 2 * i) = ?g (sx + 8 + 8 * i)"
    and keep: "\<forall>j<data + 2. fr' ! j = ?fr1 ! j"
    by blast
  have e: "sx + 8 * Suc n = sx + 8 + 8 * n"
    by simp
  have "grp_run ?f r W y sx (sx + 8 * Suc n) (fr, data, ()) = Some (fr', data + 2 * Suc n, ())"
    unfolding e using px d run by (subst grp_run.simps) simp
  moreover have "length fr' = length fr"
    using len by simp
  moreover have "fr' ! (data + 2 * i) = ?g (sx + 8 * i)" if "i < Suc n" for i
  proof (cases i)
    case 0
    then show ?thesis
      using keep d by simp
  next
    case (Suc k)
    then have "k < n" using that by simp
    with words have "fr' ! (data + 2 + 2 * k) = ?g (sx + 8 + 8 * k)"
      by simp
    then show ?thesis
      using Suc by (simp add: add.assoc)
  qed
  moreover have "fr' ! j = fr ! j" if "j < data" for j
    using that keep by simp
  ultimately show ?case
    by blast
qed

lemma diff_mult_Suc:
  assumes "Suc a \<le> b"
  shows "(b - a) * d = d + (b - Suc a) * (d::nat)"
proof -
  have "b - a = Suc (b - Suc a)"
    using assms by simp
  then show ?thesis
    by (simp only: mult_Suc)
qed

lemma rows_run_batch:
  assumes "\<And>x y. y0 \<le> y \<Longrightarrow> y < y1 \<Longrightarrow> inside r x \<Longrightarrow>
             y * W + x < length prev \<and> y * W + x < length nxt
             \<and> prev ! (y * W + x) < intensity_values \<and> nxt ! (y * W + x) < intensity_values"
    and "\<And>y. y0 \<le> y \<Longrightarrow> y < y1 \<Longrightarrow> data + (y - y0) * (2 * n + row_skip) + 2 * n \<le> length fr"
  shows "\<exists>fr'. rows_run (batch_pixel M prev nxt) r W sx0 (sx0 + 8 * n) row_skip [y0 ..< y1]
                   (fr, data, ())
                 = Some (fr', data + (y1 - y0) * (2 * n + row_skip), ())
           \<and> length fr' = length fr
           \<and> (\<forall>y i. y0 \<le> y \<longrightarrow> y < y1 \<longrightarrow> i < n \<longrightarrow>
                 fr' ! (data + (y - y0) * (2 * n + row_skip) + 2 * i)
                 = pack 0 (map (batch_lane M prev nxt r W y) [sx0 + 8 * i ..< sx0 + 8 * i + 8]))
           \<and> (\<forall>j<data. fr' ! j = fr ! j)"
  using assms
proof (induction "y1 - y0" arbitrary: y0 fr data)
  case 0
  then show ?case by simp
next
  case (Suc k)
  let ?f = "batch_pixel M prev nxt"
  let ?D = "2 * n + row_skip"
  let ?g = "\<lambda>y sx. pack 0 (map (batch_lane M prev nxt r W y) [sx ..< sx + 8])"
  from Suc.hyps(2) have lt: "y0 < y1" and k: "k = y1 - Suc y0"
    by simp_all
  have pix: "\<And>x. inside r x \<Longrightarrow>
             y0 * W + x < length prev \<and> y0 * W + x < length nxt
             \<and> prev ! (y0 * W + x) < intensity_values \<and> nxt ! (y0 * W + x) < intensity_values"
    using Suc.prems(1) [of y0] lt by simp
  have d0: "data + 2 * n \<le> length fr"
    using Suc.prems(2) [of y0] lt by simp
  from grp_run_batch [OF pix d0, where M = M and sx = sx0] obtain fr1 where
    g: "grp_run ?f r W y0 sx0 (sx0 + 8 * n) (fr, data, ()) = Some (fr1, data + 2 * n, ())"
    and len1: "length fr1 = length fr"
    and words1: "\<forall>i<n. fr1 ! (data + 2 * i) = ?g y0 (sx0 + 8 * i)"
    and keep1: "\<forall>j<data. fr1 ! j = fr ! j"
    by blast
  have pix': "\<And>x y. Suc y0 \<le> y \<Longrightarrow> y < y1 \<Longrightarrow> inside r x \<Longrightarrow>
             y * W + x < length prev \<and> y * W + x < length nxt
             \<and> prev ! (y * W + x) < intensity_values \<and> nxt ! (y * W + x) < intensity_values"
    using Suc.prems(1) by simp
  have rng': "data + ?D + (y - Suc y0) * ?D + 2 * n \<le> length fr1"
    if "Suc y0 \<le> y" "y < y1" for y
  proof -
    have "(y - y0) * ?D = ?D + (y - Suc y0) * ?D"
      using that(1) by (rule diff_mult_Suc)
    then show ?thesis
      using Suc.prems(2) [of y] that len1 by simp
  qed
  from Suc.hyps(1) [OF k pix' rng'] obtain fr' where
    run: "rows_run ?f r W sx0 (sx0 + 8 * n) row_skip [Suc y0 ..< y1] (fr1, data + ?D, ())
            = Some (fr', data + ?D + (y1 - Suc y0) * ?D, ())"
    and len: "length fr' = length fr1"
    and words: "\<forall>y i. Suc y0 \<le> y \<longrightarrow> y < y1 \<longrightarrow> i < n \<longrightarrow>
                 fr' ! (data + ?D + (y - Suc y0) * ?D + 2 * i) = ?g y (sx0 + 8 * i)"
    and keep: "\<forall>j<data + ?D. fr' ! j = fr1 ! j"
    by blast
  have e: "data + ?D + (y1 - Suc y0) * ?D = data + (y1 - y0) * ?D"
    using diff_mult_Suc [of y0 y1 ?D] lt by simp
  have "rows_run ?f r W sx0 (sx0 + 8 * n) row_skip [y0 ..< y1] (fr, data, ())
          = Some (fr', data + (y1 - y0) * ?D, ())"
    using lt g run e by (simp add: upt_conv_Cons add.assoc)
  moreover have "length fr' = length fr"
    using len len1 by simp
  moreover have "fr' ! (data + (y - y0) * ?D + 2 * i) = ?g y (sx0 + 8 * i)"
    if "y0 \<le> y" "y < y1" "i < n" for y i
  proof (cases "y = y0")
    case True
    have "data + 2 * i < data + ?D"
      using that(3) by simp
    with keep have "fr' ! (data + 2 * i) = fr1 ! (data + 2 * i)"
      by blast
    with words1 that(3) True show ?thesis
      by simp
  next
    case False
    then have ge: "Suc y0 \<le> y"
      using that(1) by simp
    have "(y - y0) * ?D = ?D + (y - Suc y0) * ?D"
      using ge by (rule diff_mult_Suc)
    with words ge that(2,3) show ?thesis
      by (simp add: add.assoc)
  qed
  moreover have "fr' ! j = fr ! j" if "j < data" for j
    using that keep keep1 by simp
  ultimately show ?case
    by blast
qed

lemma pixel_offset_bound:
  assumes "within_panel P r"
    and "unat (top_y r) \<le> y" "y < unat (top_y r) + unat (height r)" "inside r x"
  shows "y * unat (epd_width P) + x < unat (epd_width P) * unat (epd_height P)"
proof -
  let ?W = "unat (epd_width P)" and ?H = "unat (epd_height P)"
  have x: "x < ?W" and y: "Suc y \<le> ?H"
    using assms by (simp_all add: within_panel_def inside_def)
  have "y * ?W + x < y * ?W + ?W"
    using x by simp
  also have "\<dots> = Suc y * ?W"
    by simp
  also have "\<dots> \<le> ?H * ?W"
    using y by (rule mult_le_mono1)
  finally show ?thesis
    by (simp add: mult.commute)
qed

lemma frame_geometry:
  assumes "panel_ok P" and "within_panel P r"
  defines "n \<equiv> (unat (left r) mod 8 + unat (width r) + 7) div 8"
  defines "S \<equiv> buf_stride P div 2"
  shows "buf_stride P = 2 * S"
    and "(buf_stride P - n * buf_depth) div 2 = S - 2 * n"
    and "2 * n \<le> S"
    and "2 * (margin_left P + unat (left r) div 8 + n) \<le> S"
    and "buf_frame P div 2 = S * buf_height P"
    and "word_index P (8 * (unat (left r) div 8) + 8 * i) y
           = (margin_top P + y) * S + 2 * (margin_left P + unat (left r) div 8 + i)"
proof -
  let ?W = "unat (epd_width P)"
  note geo = align_region_geometry [OF assms(1,2)]
  show st: "buf_stride P = 2 * S"
    using assms(1) by (simp add: panel_ok_def S_def)
  have "8 * (unat (left r) div 8 + n) \<le> ?W"
    using geo(6) by (simp add: n_def)
  then have "unat (left r) div 8 + n \<le> ?W div 8"
    by simp
  then have "(margin_left P + unat (left r) div 8 + n) * 4 \<le> (margin_left P + ?W div 8) * 4"
    by simp
  also have "\<dots> \<le> buf_stride P"
    using assms(1) by (simp add: panel_ok_def buf_depth_def)
  finally have b: "(margin_left P + unat (left r) div 8 + n) * 4 \<le> 2 * S"
    using st by simp
  then show c: "2 * (margin_left P + unat (left r) div 8 + n) \<le> S"
    by simp
  then show n2: "2 * n \<le> S"
    by simp
  have "buf_stride P - n * buf_depth = 2 * (S - 2 * n)"
    using st n2 by (simp add: buf_depth_def)
  then show "(buf_stride P - n * buf_depth) div 2 = S - 2 * n"
    by simp
  show "buf_frame P div 2 = S * buf_height P"
    by (simp add: buf_frame_def st)
  have "(8 * (unat (left r) div 8) + 8 * i) div 8 = unat (left r) div 8 + i"
    by simp
  then have "(margin_top P + y) * buf_stride P
        + (margin_left P + (8 * (unat (left r) div 8) + 8 * i) div 8) * buf_depth
      = 2 * ((margin_top P + y) * S + 2 * (margin_left P + unat (left r) div 8 + i))"
    by (simp add: st buf_depth_def algebra_simps)
  then show "word_index P (8 * (unat (left r) div 8) + 8 * i) y
           = (margin_top P + y) * S + 2 * (margin_left P + unat (left r) div 8 + i)"
    by (simp only: word_index_def nonzero_mult_div_cancel_left)
qed


lemma walk_batch:
  assumes "panel_ok P" and "within_panel P r"
    and "length null_frame = buf_frame P div 2"
    and "length prev = unat (epd_width P) * unat (epd_height P)"
    and "length nxt = unat (epd_width P) * unat (epd_height P)"
    and "\<forall>v\<in>set prev. v < intensity_values" and "\<forall>v\<in>set nxt. v < intensity_values"
  shows "\<exists>fr. walk P (batch_pixel M prev nxt) r null_frame () = Some (fr, ())
           \<and> length fr = length null_frame
           \<and> (\<forall>y i. unat (top_y r) \<le> y \<longrightarrow> y < unat (top_y r) + unat (height r) \<longrightarrow>
                  i < (unat (left r) mod 8 + unat (width r) + 7) div 8 \<longrightarrow>
                  fr ! word_index P (8 * (unat (left r) div 8) + 8 * i) y
                  = pack 0 (map (batch_lane M prev nxt r (unat (epd_width P)) y)
                      [8 * (unat (left r) div 8) + 8 * i ..< 8 * (unat (left r) div 8) + 8 * i + 8]))"
proof -
  let ?W = "unat (epd_width P)" and ?H = "unat (epd_height P)"
  let ?l = "unat (left r)" and ?w = "unat (width r)"
  let ?t = "unat (top_y r)" and ?h = "unat (height r)"
  let ?n = "(?l mod 8 + ?w + 7) div 8"
  let ?S = "buf_stride P div 2"
  let ?data = "(margin_top P + ?t) * ?S + 2 * (margin_left P + ?l div 8)"
  note fg = frame_geometry [OF assms(1,2)]
  have D: "2 * ?n + (?S - 2 * ?n) = ?S"
    using fg(3) by simp
  have data0: "((margin_top P + ?t) * buf_stride P + (margin_left P + ?l div 8) * buf_depth) div 2
      = ?data"
    using fg(6) [of 0 ?t] by (simp add: word_index_def)
  have pix: "y * ?W + x < length prev \<and> y * ?W + x < length nxt
             \<and> prev ! (y * ?W + x) < intensity_values \<and> nxt ! (y * ?W + x) < intensity_values"
    if "?t \<le> y" "y < ?t + ?h" "inside r x" for x y
  proof -
    have "y * ?W + x < ?W * ?H"
      using assms(2) that by (rule pixel_offset_bound)
    then show ?thesis
      using assms(4-7) by simp
  qed
  have th: "?t + ?h \<le> ?H"
    using assms(2) by (simp add: within_panel_def)
  have rng: "?data + (y - ?t) * (2 * ?n + (?S - 2 * ?n)) + 2 * ?n \<le> length null_frame"
    if "?t \<le> y" "y < ?t + ?h" for y
  proof -
    define d where "d = y - ?t"
    have d: "y = ?t + d"
      using that(1) by (simp add: d_def)
    have "?data + (y - ?t) * ?S + 2 * ?n
        = (margin_top P + y) * ?S + 2 * (margin_left P + ?l div 8 + ?n)"
      unfolding d by (simp add: algebra_simps)
    also have "\<dots> \<le> (margin_top P + y) * ?S + ?S"
      using fg(4) by simp
    also have "\<dots> = Suc (margin_top P + y) * ?S"
      by simp
    also have "\<dots> \<le> buf_height P * ?S"
    proof (rule mult_le_mono1)
      show "Suc (margin_top P + y) \<le> buf_height P"
        using that(2) th assms(1) by (simp add: panel_ok_def)
    qed
    finally show ?thesis
      using D by (simp add: assms(3) fg(5) mult.commute)
  qed
  from rows_run_batch [of ?t "?t + ?h" r ?W prev nxt ?data ?n "?S - 2 * ?n" null_frame M
      "8 * (?l div 8)", OF pix rng]
  obtain fr where
    run: "rows_run (batch_pixel M prev nxt) r ?W (8 * (?l div 8)) (8 * (?l div 8) + 8 * ?n)
            (?S - 2 * ?n) [?t ..< ?t + ?h] (null_frame, ?data, ())
          = Some (fr, ?data + (?t + ?h - ?t) * (2 * ?n + (?S - 2 * ?n)), ())"
    and len: "length fr = length null_frame"
    and words: "\<forall>y i. ?t \<le> y \<longrightarrow> y < ?t + ?h \<longrightarrow> i < ?n \<longrightarrow>
        fr ! (?data + (y - ?t) * (2 * ?n + (?S - 2 * ?n)) + 2 * i)
        = pack 0 (map (batch_lane M prev nxt r ?W y)
            [8 * (?l div 8) + 8 * i ..< 8 * (?l div 8) + 8 * i + 8])"
    by blast
  have w: "walk P (batch_pixel M prev nxt) r null_frame () = Some (fr, ())"
    by (simp only: walk_eq [OF assms(1,2)] fg(2) data0 run option.case prod.case)
  have "fr ! word_index P (8 * (?l div 8) + 8 * i) y
        = pack 0 (map (batch_lane M prev nxt r ?W y)
            [8 * (?l div 8) + 8 * i ..< 8 * (?l div 8) + 8 * i + 8])"
    if "?t \<le> y" "y < ?t + ?h" "i < ?n" for y i
  proof -
    define d where "d = y - ?t"
    have d: "y = ?t + d"
      using that(1) by (simp add: d_def)
    have "?data + (y - ?t) * (2 * ?n + (?S - 2 * ?n)) + 2 * i
        = word_index P (8 * (?l div 8) + 8 * i) y"
      unfolding d by (simp only: D fg(6)) (simp add: algebra_simps)
    with words that show ?thesis
      by metis
  qed
  with w len show ?thesis
    by blast
qed

lemma phase_code_bits: "bit (phase_code p) i \<Longrightarrow> i < 2"
proof -
  have "phase_code p AND mask 2 = phase_code p"
    by (cases p) (simp_all add: mask_eq_exp_minus_1)
  then have "bit (phase_code p) i = bit (phase_code p AND mask 2) i"
    by simp
  also have "\<dots> \<longrightarrow> i < 2"
    by (simp add: bit_and_iff bit_mask_iff)
  finally show "bit (phase_code p) i \<Longrightarrow> i < 2"
    by simp
qed

lemma pack_bits:
  assumes "\<forall>c\<in>set cs. \<forall>i. bit c i \<longrightarrow> i < 2"
  shows "bit (pack ph cs) k \<longleftrightarrow> k < 16 \<and>
           (if k < 2 * length cs then bit (cs ! (length cs - 1 - k div 2)) (k mod 2)
            else bit ph (k - 2 * length cs))"
  using assms
proof (induction cs arbitrary: ph)
  case Nil
  then show ?case
    by (auto dest: bit_imp_le_length)
next
  case (Cons c cs)
  let ?m = "length cs"
  have c: "bit c i \<Longrightarrow> i < 2" for i
    using Cons.prems by simp
  have IH: "bit (pack (push_bit 2 ph OR ucast c) cs) k \<longleftrightarrow> k < 16 \<and>
           (if k < 2 * ?m then bit (cs ! (?m - 1 - k div 2)) (k mod 2)
            else bit (push_bit 2 ph OR ucast c :: 16 word) (k - 2 * ?m))"
    using Cons.prems by (intro Cons.IH) simp
  consider (low) "k < 2 * ?m" | (mid) "2 * ?m \<le> k" "k < 2 * ?m + 2" | (high) "2 * ?m + 2 \<le> k"
    by linarith
  then show ?case
  proof cases
    case low
    then have "k div 2 < ?m"
      by simp
    then have "(c # cs) ! (Suc ?m - 1 - k div 2) = cs ! (?m - 1 - k div 2)"
      by (simp add: Suc_diff_le nth_Cons')
    with low show ?thesis
      by (simp add: IH)
  next
    case mid
    then have d: "k div 2 = ?m" and e: "k - 2 * ?m = k mod 2"
      by presburger+
    have "bit (push_bit 2 ph OR ucast c :: 16 word) (k mod 2) \<longleftrightarrow> bit c (k mod 2)"
      by (auto simp: bit_or_iff bit_push_bit_iff bit_ucast_iff dest: bit_imp_le_length)
    then show ?thesis
      using mid by (simp add: IH d e)
  next
    case high
    then have "bit (push_bit 2 ph OR ucast c :: 16 word) (k - 2 * ?m) \<longleftrightarrow>
        k - 2 * ?m < 16 \<and> bit ph (k - 2 * ?m - 2)"
      using c [of "k - 2 * ?m"]
      by (auto simp: bit_or_iff bit_push_bit_iff bit_ucast_iff dest: bit_imp_le_length)
    with high show ?thesis
      by (auto simp: IH)
  qed
qed

lemma pack_lane:
  assumes "\<forall>c\<in>set cs. \<forall>i. bit c i \<longrightarrow> i < 2" and "length cs = 8" and "j < 8"
  shows "drop_bit (14 - 2 * j) (pack 0 cs) AND 3 = ucast (cs ! j)"
proof (rule bit_word_eqI)
  fix i
  assume i: "i < LENGTH(16)"
  have m: "(3 :: 16 word) = mask 2"
    by (simp add: mask_eq_exp_minus_1)
  have "cs ! j \<in> set cs"
    using assms(2,3) by simp
  with assms(1) have cj: "bit (cs ! j) i \<Longrightarrow> i < 2"
    by blast
  define q where "q = 7 - j"
  have q: "14 - 2 * j = 2 * q" "q < 8" "7 - q = j"
    using assms(3) by (simp_all add: q_def)
  show "bit (drop_bit (14 - 2 * j) (pack 0 cs) AND 3) i = bit (ucast (cs ! j) :: 16 word) i"
  proof (cases "i < 2")
    case True
    have k: "2 * q + i < 16" "(2 * q + i) div 2 = q" "(2 * q + i) mod 2 = i"
      using True q(2) by simp_all
    have "bit (pack 0 cs) (2 * q + i) \<longleftrightarrow> bit (cs ! j) i"
      using k q(3) assms(2) by (simp add: pack_bits [OF assms(1)])
    then show ?thesis
      using True by (simp add: q(1) m bit_and_iff bit_mask_iff bit_drop_bit_eq bit_ucast_iff)
  next
    case False
    with cj show ?thesis
      by (auto simp: m bit_and_iff bit_mask_iff bit_ucast_iff)
  qed
qed

lemma region_index_bound:
  assumes "l \<le> x" "x < l + w" "t \<le> y" "y < t + (h::nat)"
  shows "(y - t) * w + (x - l) < w * h"
proof -
  have "(y - t) * w + (x - l) < (y - t) * w + w"
    using assms(1,2) by simp
  also have "\<dots> = Suc (y - t) * w"
    by simp
  also have "\<dots> \<le> h * w"
    using assms(3,4) by (intro mult_le_mono1) simp
  finally show ?thesis
    by (simp add: mult.commute)
qed

lemma apply_update_Some:
  assumes "within_panel P (region u)"
    and "length (buffer u) = unat (width (region u)) * unat (height (region u))"
    and "length target = unat (epd_width P) * unat (epd_height P)"
  shows "\<exists>res. apply_update u (epd_width P) target = Some res
           \<and> length res = length target
           \<and> (\<forall>i<length target. res ! i =
                 (if inside (region u) (i mod unat (epd_width P))
                     \<and> unat (top_y (region u)) \<le> i div unat (epd_width P)
                     \<and> i div unat (epd_width P) < unat (top_y (region u)) + unat (height (region u))
                  then buffer u ! ((i div unat (epd_width P) - unat (top_y (region u)))
                                   * unat (width (region u))
                                 + (i mod unat (epd_width P) - unat (left (region u))))
                  else target ! i))
           \<and> set res \<subseteq> set target \<union> set (buffer u)"
proof -
  let ?W = "unat (epd_width P)" and ?H = "unat (epd_height P)"
  let ?l = "unat (left (region u))" and ?w = "unat (width (region u))"
  let ?t = "unat (top_y (region u))" and ?h = "unat (height (region u))"
  define g where "g = (\<lambda>i.
     if ?l \<le> i mod ?W \<and> i mod ?W < ?l + ?w \<and> ?t \<le> i div ?W \<and> i div ?W < ?t + ?h
     then buffer u ! ((i div ?W - ?t) * ?w + (i mod ?W - ?l))
     else target ! i)"
  have lw: "?l + ?w \<le> ?W" and th: "?t + ?h \<le> ?H"
    using assms(1) by (simp_all add: within_panel_def)
  have "(?t + ?h) * ?W \<le> ?H * ?W"
    using th by (rule mult_le_mono1)
  then have fits: "(?t + ?h) * ?W \<le> length target"
    by (simp add: assms(3) mult.commute)
  have res: "apply_update u (epd_width P) target = Some (map g [0 ..< length target])"
    using lw fits assms(2) by (simp add: apply_update_def Let_def g_def)
  have mem: "g i \<in> set target \<union> set (buffer u)" if "i < length target" for i
  proof (cases "?l \<le> i mod ?W \<and> i mod ?W < ?l + ?w \<and> ?t \<le> i div ?W \<and> i div ?W < ?t + ?h")
    case True
    then have "(i div ?W - ?t) * ?w + (i mod ?W - ?l) < ?w * ?h"
      by (intro region_index_bound) simp_all
    then have "buffer u ! ((i div ?W - ?t) * ?w + (i mod ?W - ?l)) \<in> set (buffer u)"
      by (simp add: assms(2))
    moreover have "g i = buffer u ! ((i div ?W - ?t) * ?w + (i mod ?W - ?l))"
      unfolding g_def using True by (rule if_P)
    ultimately show ?thesis
      by simp
  next
    case False
    have "g i = target ! i"
      unfolding g_def using False by (rule if_not_P)
    with that show ?thesis
      by simp
  qed
  have sub: "set (map g [0 ..< length target]) \<subseteq> set target \<union> set (buffer u)"
  proof
    fix v
    assume "v \<in> set (map g [0 ..< length target])"
    then obtain i where "i < length target" "v = g i"
      by auto
    with mem show "v \<in> set target \<union> set (buffer u)"
      by simp
  qed
  have nth: "\<forall>i<length target. map g [0 ..< length target] ! i =
                 (if inside (region u) (i mod ?W) \<and> ?t \<le> i div ?W \<and> i div ?W < ?t + ?h
                  then buffer u ! ((i div ?W - ?t) * ?w + (i mod ?W - ?l))
                  else target ! i)"
    by (simp add: inside_def g_def)
  show ?thesis
    using res sub nth by simp
qed

lemma extend_region_within:
  assumes "within_panel P a" and "within_panel P b"
  shows "within_panel P (extend_region a b)"
proof -
  let ?W = "unat (epd_width P)" and ?H = "unat (epd_height P)"
  have B: "?W < 4294967296" "?H < 4294967296"
    by (rule unat_coord_bound)+
  have a: "unat (left a) + unat (width a) \<le> ?W" "unat (top_y a) + unat (height a) \<le> ?H"
    and b: "unat (left b) + unat (width b) \<le> ?W" "unat (top_y b) + unat (height b) \<le> ?H"
    using assms by (simp_all add: within_panel_def)
  have sums: "unat (left a + width a) = unat (left a) + unat (width a)"
    "unat (left b + width b) = unat (left b) + unat (width b)"
    "unat (top_y a + height a) = unat (top_y a) + unat (height a)"
    "unat (top_y b + height b) = unat (top_y b) + unat (height b)"
    using a b B by (simp_all add: unat_add_coord)
  have mn: "unat (min x y) = min (unat x) (unat y)" for x y :: coord
    by (simp add: min_def word_le_nat_alt)
  have mx: "unat (max x y) = max (unat x) (unat y)" for x y :: coord
    by (simp add: max_def word_le_nat_alt)
  have sub: "unat (x - y) = unat x - unat y" if "unat y \<le> unat x" for x y :: coord
    using that by (intro unat_sub) (simp add: word_le_nat_alt)
  have wd: "unat (width (extend_region a b)) =
      max (unat (left a) + unat (width a)) (unat (left b) + unat (width b))
        - min (unat (left a)) (unat (left b))"
    unfolding extend_region_def Let_def
    by (simp add: sub mx mn sums)
  have ht: "unat (height (extend_region a b)) =
      max (unat (top_y a) + unat (height a)) (unat (top_y b) + unat (height b))
        - min (unat (top_y a)) (unat (top_y b))"
    unfolding extend_region_def Let_def
    by (simp add: sub mx mn sums)
  have lf: "unat (left (extend_region a b)) = min (unat (left a)) (unat (left b))"
    and tp: "unat (top_y (extend_region a b)) = min (unat (top_y a)) (unat (top_y b))"
    by (simp_all add: extend_region_def Let_def mn)
  show ?thesis
    unfolding within_panel_def wd ht lf tp using a b by simp
qed

end
